theory Spec2Isabelle
  imports Main "HOL-Library.Monad_Syntax"
begin

section \<open>utilities/common.hpp\<close>

text \<open>
  \<^verbatim>\<open>#define int long long\<close>, \<^verbatim>\<open>using vi = vector<int>\<close> and
  \<^verbatim>\<open>const ll INF = 1e18\<close>. Values are mathematical integers that must stay inside the
  signed 64-bit range: an addition or subtraction that leaves it is undefined behaviour
  in C++ and yields \<open>None\<close> here, and so does an access outside a vector. Indices are
  natural numbers: every index the class computes for a non-empty array is
  non-negative. (\<open>INF\<close> is taken by the lattice syntax of HOL, hence \<open>INF_ll\<close>.)
\<close>

definition INF_ll :: int where
  "INF_ll = 1000000000000000000"

definition in_ll :: "int \<Rightarrow> bool" where
  "in_ll x \<longleftrightarrow> - (2 ^ 63) \<le> x \<and> x < 2 ^ 63"

definition add_ll :: "int \<Rightarrow> int \<Rightarrow> int option" where
  "add_ll a b = (if in_ll (a + b) then Some (a + b) else None)"

definition sub_ll :: "int \<Rightarrow> int \<Rightarrow> int option" where
  "sub_ll a b = (if in_ll (a - b) then Some (a - b) else None)"

definition rd :: "int list \<Rightarrow> nat \<Rightarrow> int option" where
  "rd xs i = (if i < length xs then Some (xs ! i) else None)"

definition wr :: "int list \<Rightarrow> nat \<Rightarrow> int \<Rightarrow> int list option" where
  "wr xs i v = (if i < length xs then Some (xs[i := v]) else None)"

section \<open>data_structures/segment_tree.hpp\<close>

text \<open>
  The class \<^verbatim>\<open>SegmentTree\<close>: its four members as a record, each member function as
  a function from the state before the call to the state after it (and the returned
  value, for \<^verbatim>\<open>query\<close>), \<open>None\<close> where the call has undefined behaviour or does not
  return.
\<close>

record SegmentTree =
  ar :: "int list"
  segment_tree :: "int list"
  lazy :: "int list"
  n :: nat

text \<open>
  \<^verbatim>\<open>buildTree\<close> recurses whenever \<^verbatim>\<open>start_index != end_index\<close>; called with
  \<open>start_index > end_index\<close> it never returns, which is the value \<open>None\<close> of the
  partial function.
\<close>

partial_function (option) buildTree ::
  "SegmentTree \<Rightarrow> nat \<Rightarrow> nat \<Rightarrow> nat \<Rightarrow> SegmentTree option" where
  "buildTree s start_index end_index segment_index =
     (if start_index = end_index then do {
        v \<leftarrow> rd (ar s) start_index;
        t \<leftarrow> wr (segment_tree s) segment_index v;
        Some (s\<lparr>segment_tree := t\<rparr>)
      } else do {
        let mid = (start_index + end_index) div 2;
        s1 \<leftarrow> buildTree s start_index mid (2 * segment_index);
        s2 \<leftarrow> buildTree s1 (mid + 1) end_index (2 * segment_index + 1);
        a \<leftarrow> rd (segment_tree s2) (2 * segment_index);
        b \<leftarrow> rd (segment_tree s2) (2 * segment_index + 1);
        t \<leftarrow> wr (segment_tree s2) segment_index (min a b);
        Some (s2\<lparr>segment_tree := t\<rparr>)
      })"

declare buildTree.simps [code]

text \<open>
  The constructor. With an empty array it calls \<^verbatim>\<open>buildTree(0, -1, 1)\<close>, whose first
  recursive call \<^verbatim>\<open>buildTree(0, 0, 2)\<close> reads \<^verbatim>\<open>ar[0]\<close> and writes
  \<^verbatim>\<open>segment_tree[2]\<close> in empty vectors: no tree is constructed.
\<close>

definition SegmentTree_init :: "int list \<Rightarrow> SegmentTree option" where
  "SegmentTree_init arr =
     (if arr = [] then None
      else buildTree
        \<lparr>ar = arr, segment_tree = replicate (4 * length arr) INF_ll,
         lazy = replicate (4 * length arr) 0, n = length arr\<rparr>
        0 (length arr - 1) 1)"

definition push :: "SegmentTree \<Rightarrow> nat \<Rightarrow> nat \<Rightarrow> nat \<Rightarrow> SegmentTree option" where
  "push s node start end = do {
     lz \<leftarrow> rd (lazy s) node;
     if lz \<noteq> 0 then do {
       t \<leftarrow> rd (segment_tree s) node;
       z0 \<leftarrow> rd (lazy s) node;
       t' \<leftarrow> add_ll t z0;
       tr \<leftarrow> wr (segment_tree s) node t';
       l2 \<leftarrow> (if start \<noteq> end then do {
           a \<leftarrow> rd (lazy s) (2 * node);
           z1 \<leftarrow> rd (lazy s) node;
           a' \<leftarrow> add_ll a z1;
           l1 \<leftarrow> wr (lazy s) (2 * node) a';
           b \<leftarrow> rd l1 (2 * node + 1);
           z2 \<leftarrow> rd l1 node;
           b' \<leftarrow> add_ll b z2;
           wr l1 (2 * node + 1) b'
         } else Some (lazy s));
       l3 \<leftarrow> wr l2 node 0;
       Some (s\<lparr>segment_tree := tr, lazy := l3\<rparr>)
     } else Some s
   }"

function rangeUpdate ::
  "SegmentTree \<Rightarrow> nat \<Rightarrow> nat \<Rightarrow> nat \<Rightarrow> nat \<Rightarrow> nat \<Rightarrow> int \<Rightarrow> SegmentTree option" where
  "rangeUpdate s node start end l r val = do {
     s1 \<leftarrow> push s node start end;
     if start > end \<or> start > r \<or> end < l then Some s1
     else if start \<ge> l \<and> end \<le> r then do {
       z \<leftarrow> rd (lazy s1) node;
       z' \<leftarrow> add_ll z val;
       lz \<leftarrow> wr (lazy s1) node z';
       push (s1\<lparr>lazy := lz\<rparr>) node start end
     } else do {
       let mid = (start + end) div 2;
       s2 \<leftarrow> rangeUpdate s1 (2 * node) start mid l r val;
       s3 \<leftarrow> rangeUpdate s2 (2 * node + 1) (mid + 1) end l r val;
       a \<leftarrow> rd (segment_tree s3) (2 * node);
       b \<leftarrow> rd (segment_tree s3) (2 * node + 1);
       t \<leftarrow> wr (segment_tree s3) node (min a b);
       Some (s3\<lparr>segment_tree := t\<rparr>)
     }
   }"
  by pat_completeness auto
termination
  by (relation "measure (\<lambda>(s, node, start, end, l, r, val). end - start)") auto

function query ::
  "SegmentTree \<Rightarrow> nat \<Rightarrow> nat \<Rightarrow> nat \<Rightarrow> nat \<Rightarrow> nat \<Rightarrow> (int \<times> SegmentTree) option" where
  "query s start_index end_index segment_index query_start query_end = do {
     s1 \<leftarrow> push s segment_index start_index end_index;
     if query_end < start_index \<or> query_start > end_index then Some (INF_ll, s1)
     else if query_start \<le> start_index \<and> end_index \<le> query_end then do {
       v \<leftarrow> rd (segment_tree s1) segment_index;
       Some (v, s1)
     } else do {
       let mid = (start_index + end_index) div 2;
       (left, s2) \<leftarrow> query s1 start_index mid (2 * segment_index) query_start query_end;
       (right, s3) \<leftarrow> query s2 (mid + 1) end_index (2 * segment_index + 1) query_start query_end;
       Some (min left right, s3)
     }
   }"
  by pat_completeness auto
termination
  by (relation "measure (\<lambda>(s, start, end, node, l, r). end - start)") auto

text \<open>
  The three entry points pass \<^verbatim>\<open>n - 1\<close> as the right end of the root. A state with
  \<open>n = 0\<close> is never constructed; there the first access, \<^verbatim>\<open>lazy[1]\<close> in \<^verbatim>\<open>push\<close>
  (\<^verbatim>\<open>ar[pos]\<close> in \<^verbatim>\<open>pointUpdate\<close>), would already be outside an empty vector.
\<close>

definition rangeMin :: "SegmentTree \<Rightarrow> nat \<Rightarrow> nat \<Rightarrow> (int \<times> SegmentTree) option" where
  "rangeMin s l r = (if n s = 0 then None else query s 0 (n s - 1) 1 l r)"

definition updateRange :: "SegmentTree \<Rightarrow> nat \<Rightarrow> nat \<Rightarrow> int \<Rightarrow> SegmentTree option" where
  "updateRange s l r val = (if n s = 0 then None else rangeUpdate s 1 0 (n s - 1) l r val)"

definition pointUpdate :: "SegmentTree \<Rightarrow> nat \<Rightarrow> int \<Rightarrow> SegmentTree option" where
  "pointUpdate s pos val = (if n s = 0 then None else do {
     old \<leftarrow> rd (ar s) pos;
     d \<leftarrow> sub_ll val old;
     s1 \<leftarrow> rangeUpdate s 1 0 (n s - 1) pos pos d;
     a \<leftarrow> wr (ar s1) pos val;
     Some (s1\<lparr>ar := a\<rparr>)
   })"

section \<open>Sequences of operations\<close>

text \<open>
  The operations a client applies after construction, and the states they reach:
  \<open>reachable arr ops s\<close> says that constructing the tree from the 64-bit values
  \<open>arr\<close> and applying the in-range operations \<open>ops\<close> in turn returns the state \<open>s\<close>.
\<close>

datatype operation = UpdateRange nat nat int | PointUpdate nat int | RangeMin nat nat

fun apply_op :: "SegmentTree \<Rightarrow> operation \<Rightarrow> SegmentTree option" where
  "apply_op s (UpdateRange l r val) = updateRange s l r val"
| "apply_op s (PointUpdate pos val) = pointUpdate s pos val"
| "apply_op s (RangeMin l r) = map_option snd (rangeMin s l r)"

fun in_range :: "nat \<Rightarrow> operation \<Rightarrow> bool" where
  "in_range N (UpdateRange l r val) \<longleftrightarrow> l \<le> r \<and> r < N \<and> in_ll val"
| "in_range N (PointUpdate pos val) \<longleftrightarrow> pos < N \<and> in_ll val"
| "in_range N (RangeMin l r) \<longleftrightarrow> l \<le> r \<and> r < N"

fun run :: "SegmentTree \<Rightarrow> operation list \<Rightarrow> SegmentTree option" where
  "run s [] = Some s"
| "run s (x # xs) = apply_op s x \<bind> (\<lambda>s'. run s' xs)"

definition reachable :: "int list \<Rightarrow> operation list \<Rightarrow> SegmentTree \<Rightarrow> bool" where
  "reachable arr ops s \<longleftrightarrow>
     list_all in_ll arr \<and> list_all (in_range (length arr)) ops \<and>
     SegmentTree_init arr \<bind> (\<lambda>s0. run s0 ops) = Some s"

text \<open>
  What a client observes of a sequence of operations: the answers of its queries, in
  order.
\<close>

fun step :: "SegmentTree \<Rightarrow> operation \<Rightarrow> (int list \<times> SegmentTree) option" where
  "step s (UpdateRange l r val) = map_option (Pair []) (updateRange s l r val)"
| "step s (PointUpdate pos val) = map_option (Pair []) (pointUpdate s pos val)"
| "step s (RangeMin l r) = map_option (\<lambda>(x, s'). ([x], s')) (rangeMin s l r)"

fun run_answers :: "SegmentTree \<Rightarrow> operation list \<Rightarrow> (int list \<times> SegmentTree) option" where
  "run_answers s [] = Some ([], s)"
| "run_answers s (x # xs) = do {
     (a, s1) \<leftarrow> step s x;
     (as, s2) \<leftarrow> run_answers s1 xs;
     Some (a @ as, s2)
   }"

text \<open>A sequence of queries, with the list of their answers.\<close>

fun rangeMins :: "SegmentTree \<Rightarrow> (nat \<times> nat) list \<Rightarrow> (int list \<times> SegmentTree) option" where
  "rangeMins s [] = Some ([], s)"
| "rangeMins s ((l, r) # qs) = do {
     (x, s1) \<leftarrow> rangeMin s l r;
     (xs, s2) \<leftarrow> rangeMins s1 qs;
     Some (x # xs, s2)
   }"

section \<open>Naive array simulation\<close>

text \<open>
  The specification's reference for range updates and range minima: the array itself,
  updated element by element and scanned from \<open>ql\<close> to \<open>qh\<close>.
\<close>

definition naive_rangeUpdate :: "int list \<Rightarrow> nat \<Rightarrow> nat \<Rightarrow> int \<Rightarrow> int list" where
  "naive_rangeUpdate xs lo hi delta =
     map (\<lambda>k. if lo \<le> k \<and> k \<le> hi then xs ! k + delta else xs ! k) [0..<length xs]"

definition naive_rangeMin :: "int list \<Rightarrow> nat \<Rightarrow> nat \<Rightarrow> int" where
  "naive_rangeMin xs ql qh = Min (set (map ((!) xs) [ql..<qh + 1]))"

section \<open>The variant of rangeUpdate that flushes only after an overlap is confirmed\<close>

text \<open>
  The specification's design note proposes this variant: \<^verbatim>\<open>rangeUpdate\<close> with the
  test for no overlap moved in front of the entry flush, everything else as in the source.
\<close>

function rangeUpdate_skip ::
  "SegmentTree \<Rightarrow> nat \<Rightarrow> nat \<Rightarrow> nat \<Rightarrow> nat \<Rightarrow> nat \<Rightarrow> int \<Rightarrow> SegmentTree option" where
  "rangeUpdate_skip s node start end l r val =
     (if start > end \<or> start > r \<or> end < l then Some s
      else do {
        s1 \<leftarrow> push s node start end;
        if start \<ge> l \<and> end \<le> r then do {
          z \<leftarrow> rd (lazy s1) node;
          z' \<leftarrow> add_ll z val;
          lz \<leftarrow> wr (lazy s1) node z';
          push (s1\<lparr>lazy := lz\<rparr>) node start end
        } else do {
          let mid = (start + end) div 2;
          s2 \<leftarrow> rangeUpdate_skip s1 (2 * node) start mid l r val;
          s3 \<leftarrow> rangeUpdate_skip s2 (2 * node + 1) (mid + 1) end l r val;
          a \<leftarrow> rd (segment_tree s3) (2 * node);
          b \<leftarrow> rd (segment_tree s3) (2 * node + 1);
          t \<leftarrow> wr (segment_tree s3) node (min a b);
          Some (s3\<lparr>segment_tree := t\<rparr>)
        }
      })"
  by pat_completeness auto
termination
  by (relation "measure (\<lambda>(s, node, start, end, l, r, val). end - start)") auto

definition updateRange_skip :: "SegmentTree \<Rightarrow> nat \<Rightarrow> nat \<Rightarrow> int \<Rightarrow> SegmentTree option" where
  "updateRange_skip s l r val =
     (if n s = 0 then None else rangeUpdate_skip s 1 0 (n s - 1) l r val)"

text \<open>
  The class with the variant in the place of \<^verbatim>\<open>rangeUpdate\<close>: \<^verbatim>\<open>pointUpdate\<close> calls it
  as well, queries are unchanged, and a sequence of operations is observed as before.
\<close>

definition pointUpdate_skip :: "SegmentTree \<Rightarrow> nat \<Rightarrow> int \<Rightarrow> SegmentTree option" where
  "pointUpdate_skip s pos val = (if n s = 0 then None else do {
     old \<leftarrow> rd (ar s) pos;
     d \<leftarrow> sub_ll val old;
     s1 \<leftarrow> rangeUpdate_skip s 1 0 (n s - 1) pos pos d;
     a \<leftarrow> wr (ar s1) pos val;
     Some (s1\<lparr>ar := a\<rparr>)
   })"

fun step_skip :: "SegmentTree \<Rightarrow> operation \<Rightarrow> (int list \<times> SegmentTree) option" where
  "step_skip s (UpdateRange l r val) = map_option (Pair []) (updateRange_skip s l r val)"
| "step_skip s (PointUpdate pos val) = map_option (Pair []) (pointUpdate_skip s pos val)"
| "step_skip s (RangeMin l r) = map_option (\<lambda>(x, s'). ([x], s')) (rangeMin s l r)"

fun run_answers_skip ::
  "SegmentTree \<Rightarrow> operation list \<Rightarrow> (int list \<times> SegmentTree) option" where
  "run_answers_skip s [] = Some ([], s)"
| "run_answers_skip s (x # xs) = do {
     (a, s1) \<leftarrow> step_skip s x;
     (as, s2) \<leftarrow> run_answers_skip s1 xs;
     Some (a @ as, s2)
   }"

section \<open>Well-formed states and the nodes of the tree\<close>

text \<open>
  A constructed tree over \<open>N\<close> elements keeps \<open>ar\<close> at length \<open>N\<close> and both
  \<open>segment_tree\<close> and \<open>lazy\<close> at length \<open>4 N\<close>. A call on node \<open>i\<close> with range
  \<open>[st, en]\<close> is valid when \<open>(i + 1) (en - st) \<le> 2 N\<close>: the root is, validity passes
  to both children, and it keeps every index the call touches below \<open>4 N\<close>.
\<close>

declare rangeUpdate.simps [simp del] query.simps [simp del] rangeUpdate_skip.simps [simp del]

definition wfs :: "SegmentTree \<Rightarrow> bool" where
  "wfs s \<longleftrightarrow> 0 < n s \<and> length (ar s) = n s \<and>
     length (segment_tree s) = 4 * n s \<and> length (lazy s) = 4 * n s"

definition vnode :: "nat \<Rightarrow> nat \<Rightarrow> nat \<Rightarrow> nat \<Rightarrow> bool" where
  "vnode N i st en \<longleftrightarrow>
     1 \<le> i \<and> st \<le> en \<and> en < N \<and> (i + 1) * (en - st) \<le> 2 * N \<and> i < 4 * N"

lemma vnode_root: "0 < N \<Longrightarrow> vnode N 1 0 (N - 1)"
  by (simp add: vnode_def)

lemma vnode_child_bound:
  assumes "vnode N i st en" "st < en"
  shows "2 * i + 1 < 4 * N"
proof -
  from assms have "(i + 1) * 1 \<le> (i + 1) * (en - st)"
    by (intro mult_le_mono2) simp
  with assms have "i + 1 \<le> 2 * N" by (simp add: vnode_def)
  then show ?thesis by simp
qed

lemma vnode_left:
  assumes "vnode N i st en" "st < en"
  shows "vnode N (2 * i) st ((st + en) div 2)"
proof -
  have "(2 * i + 1) * ((st + en) div 2 - st) \<le> (2 * i + 2) * ((en - st) div 2)"
    by (intro mult_le_mono) auto
  also have "\<dots> = (i + 1) * (2 * ((en - st) div 2))" by simp
  also have "\<dots> \<le> (i + 1) * (en - st)" by (intro mult_le_mono2) simp
  also have "\<dots> \<le> 2 * N" using assms(1) unfolding vnode_def by blast
  finally have p: "(2 * i + 1) * ((st + en) div 2 - st) \<le> 2 * N" .
  have b: "2 * i + 1 < 4 * N" by (rule vnode_child_bound [OF assms])
  have i: "1 \<le> i" and e: "en < N" using assms(1) unfolding vnode_def by blast+
  have "1 \<le> 2 * i" "st \<le> (st + en) div 2" "(st + en) div 2 < N" "2 * i < 4 * N"
    using i e b assms(2) by linarith+
  with p show ?thesis unfolding vnode_def by blast
qed

lemma vnode_right:
  assumes "vnode N i st en" "st < en"
  shows "vnode N (2 * i + 1) ((st + en) div 2 + 1) en"
proof -
  have "(2 * i + 1 + 1) * (en - ((st + en) div 2 + 1)) \<le> (2 * i + 2) * ((en - st) div 2)"
    by (intro mult_le_mono) auto
  also have "\<dots> = (i + 1) * (2 * ((en - st) div 2))" by simp
  also have "\<dots> \<le> (i + 1) * (en - st)" by (intro mult_le_mono2) simp
  also have "\<dots> \<le> 2 * N" using assms(1) unfolding vnode_def by blast
  finally have p: "(2 * i + 1 + 1) * (en - ((st + en) div 2 + 1)) \<le> 2 * N" .
  have b: "2 * i + 1 < 4 * N" by (rule vnode_child_bound [OF assms])
  have e: "en < N" using assms(1) unfolding vnode_def by blast
  have "1 \<le> 2 * i + 1" "(st + en) div 2 + 1 \<le> en"
    using assms(2) by linarith+
  with p b e show ?thesis unfolding vnode_def by blast
qed

text \<open>
  The indices of the nodes below \<open>i\<close>. They descend from \<open>i\<close> by halving, so the two
  subtrees of a node are disjoint and neither contains the node itself.
\<close>

function nodes :: "nat \<Rightarrow> nat \<Rightarrow> nat \<Rightarrow> nat set" where
  "nodes i st en =
     (if st < en
      then insert i (nodes (2 * i) st ((st + en) div 2) \<union>
                     nodes (2 * i + 1) ((st + en) div 2 + 1) en)
      else {i})"
  by pat_completeness auto
termination
  by (relation "measure (\<lambda>(i, st, en). en - st)") auto

declare nodes.simps [simp del]

lemma nodes_desc: "j \<in> nodes i st en \<Longrightarrow> \<exists>d. j div 2 ^ d = i"
proof (induction i st en rule: nodes.induct)
  case (1 i st en)
  show ?case
  proof (cases "st < en")
    case False
    with "1.prems" have "j = i" by (simp add: nodes.simps [of i st en])
    then have "j div 2 ^ 0 = i" by simp
    then show ?thesis by blast
  next
    case True
    with "1.prems" consider "j = i" | "j \<in> nodes (2 * i) st ((st + en) div 2)"
      | "j \<in> nodes (2 * i + 1) ((st + en) div 2 + 1) en"
      by (auto simp: nodes.simps [of i st en])
    then show ?thesis
    proof cases
      case 1
      then have "j div 2 ^ 0 = i" by simp
      then show ?thesis by blast
    next
      case 2
      from "1.IH"(1) [OF True 2] obtain d where "j div 2 ^ d = 2 * i" by blast
      then have "j div 2 ^ Suc d = i" using div_mult2_eq [of j "2 ^ d" 2] by (simp add: mult.commute)
      then show ?thesis by blast
    next
      case 3
      from "1.IH"(2) [OF True 3] obtain d where "j div 2 ^ d = 2 * i + 1" by blast
      then have "j div 2 ^ Suc d = i" using div_mult2_eq [of j "2 ^ d" 2] by (simp add: mult.commute)
      then show ?thesis by blast
    qed
  qed
qed

lemma desc_not_parent:
  assumes "1 \<le> (i::nat)" "j div 2 ^ d = 2 * i \<or> j div 2 ^ d = 2 * i + 1"
  shows "j \<noteq> i"
proof
  assume "j = i"
  have "i div 2 ^ d \<le> i" by (rule div_le_dividend)
  with assms \<open>j = i\<close> show False by auto
qed

lemma div_pow_add: "(j::nat) div 2 ^ (d + k) = j div 2 ^ d div 2 ^ k"
  by (simp only: power_add div_mult2_eq)

lemma desc_disjoint:
  assumes "1 \<le> (i::nat)" "j div 2 ^ d = 2 * i" "j div 2 ^ e = 2 * i + 1"
  shows False
proof (cases "d \<le> e")
  case True
  define k where "k = e - d"
  with True have e: "e = d + k" by simp
  have "j div 2 ^ e = (2 * i) div 2 ^ k"
    unfolding e div_pow_add assms(2) ..
  also have "\<dots> \<le> 2 * i" by (rule div_le_dividend)
  finally show False using assms(3) by simp
next
  case False
  define k where "k = d - e - 1"
  with False have d: "d = e + (1 + k)" by simp
  have "j div 2 ^ d = (2 * i + 1) div 2 ^ 1 div 2 ^ k"
    unfolding d div_pow_add assms(3) ..
  also have "\<dots> = i div 2 ^ k" by simp
  also have "\<dots> \<le> i" by (rule div_le_dividend)
  finally show False using assms(1,2) by simp
qed

lemma nodes_self: "i \<in> nodes i st en"
  by (simp add: nodes.simps [of i st en])

lemma nodes_left_not_parent: "1 \<le> i \<Longrightarrow> j \<in> nodes (2 * i) st en \<Longrightarrow> j \<noteq> i"
  using nodes_desc desc_not_parent by blast

lemma nodes_right_not_parent: "1 \<le> i \<Longrightarrow> j \<in> nodes (2 * i + 1) st en \<Longrightarrow> j \<noteq> i"
  using nodes_desc desc_not_parent by blast

lemma nodes_disjoint:
  "1 \<le> i \<Longrightarrow> j \<in> nodes (2 * i) st en \<Longrightarrow> j \<in> nodes (2 * i + 1) st' en' \<Longrightarrow> False"
  using nodes_desc desc_disjoint by blast

section \<open>The tree stored in the arrays\<close>

text \<open>
  \<open>abs_tree s i st en\<close> reads the subtree of node \<open>i\<close> out of the two arrays: at each
  node its stored value and its pending delta. \<open>frame S s s'\<close> says that \<open>s'\<close> differs
  from \<open>s\<close> at most in the entries of \<open>segment_tree\<close> and \<open>lazy\<close> at the indices \<open>S\<close>.
\<close>

datatype ltree = Leaf int int | Node int int ltree ltree

fun tv :: "ltree \<Rightarrow> int" where
  "tv (Leaf v z) = v"
| "tv (Node v z a b) = v"

fun tz :: "ltree \<Rightarrow> int" where
  "tz (Leaf v z) = z"
| "tz (Node v z a b) = z"

fun root_upd :: "ltree \<Rightarrow> int \<Rightarrow> int \<Rightarrow> ltree" where
  "root_upd (Leaf v z) v' z' = Leaf v' z'"
| "root_upd (Node v z a b) v' z' = Node v' z' a b"

function abs_tree :: "SegmentTree \<Rightarrow> nat \<Rightarrow> nat \<Rightarrow> nat \<Rightarrow> ltree" where
  "abs_tree s i st en =
     (if st < en
      then Node (segment_tree s ! i) (lazy s ! i)
             (abs_tree s (2 * i) st ((st + en) div 2))
             (abs_tree s (2 * i + 1) ((st + en) div 2 + 1) en)
      else Leaf (segment_tree s ! i) (lazy s ! i))"
  by pat_completeness auto
termination
  by (relation "measure (\<lambda>(s, i, st, en). en - st)") auto

declare abs_tree.simps [simp del]

definition frame :: "nat set \<Rightarrow> SegmentTree \<Rightarrow> SegmentTree \<Rightarrow> bool" where
  "frame S s s' \<longleftrightarrow>
     ar s' = ar s \<and> n s' = n s \<and>
     length (segment_tree s') = length (segment_tree s) \<and>
     length (lazy s') = length (lazy s) \<and>
     (\<forall>j. j \<notin> S \<longrightarrow> segment_tree s' ! j = segment_tree s ! j \<and> lazy s' ! j = lazy s ! j)"

fun t_push :: "ltree \<Rightarrow> ltree option" where
  "t_push (Leaf v z) =
     (if z \<noteq> 0 then do { v' \<leftarrow> add_ll v z; Some (Leaf v' 0) } else Some (Leaf v z))"
| "t_push (Node v z a b) =
     (if z \<noteq> 0 then do {
        v' \<leftarrow> add_ll v z;
        za \<leftarrow> add_ll (tz a) z;
        zb \<leftarrow> add_ll (tz b) z;
        Some (Node v' 0 (root_upd a (tv a) za) (root_upd b (tv b) zb))
      } else Some (Node v z a b))"

lemma tv_abs [simp]: "tv (abs_tree s i st en) = segment_tree s ! i"
  by (simp add: abs_tree.simps [of s i st en])

lemma tz_abs [simp]: "tz (abs_tree s i st en) = lazy s ! i"
  by (simp add: abs_tree.simps [of s i st en])

lemma frame_refl: "frame S s s"
  by (simp add: frame_def)

lemma frame_trans: "frame S s s' \<Longrightarrow> frame S s' s'' \<Longrightarrow> frame S s s''"
  by (simp add: frame_def)

lemma frame_mono: "frame S s s' \<Longrightarrow> S \<subseteq> S' \<Longrightarrow> frame S' s s'"
  unfolding frame_def by blast

lemma frame_wfs: "frame S s s' \<Longrightarrow> wfs s \<Longrightarrow> wfs s'"
  by (simp add: frame_def wfs_def)

lemma nodes_left_sub: "st < en \<Longrightarrow> nodes (2 * i) st ((st + en) div 2) \<subseteq> nodes i st en"
  by (subst (2) nodes.simps) auto

lemma nodes_right_sub:
  "st < en \<Longrightarrow> nodes (2 * i + 1) ((st + en) div 2 + 1) en \<subseteq> nodes i st en"
  by (subst (2) nodes.simps) auto

lemma abs_tree_cong:
  "(\<And>j. j \<in> nodes i st en \<Longrightarrow>
      segment_tree s' ! j = segment_tree s ! j \<and> lazy s' ! j = lazy s ! j) \<Longrightarrow>
   abs_tree s' i st en = abs_tree s i st en"
proof (induction i st en rule: nodes.induct)
  case (1 i st en)
  have self: "segment_tree s' ! i = segment_tree s ! i" "lazy s' ! i = lazy s ! i"
    using "1.prems" [OF nodes_self] by simp_all
  show ?case
  proof (cases "st < en")
    case False
    with self show ?thesis
      by (simp add: abs_tree.simps [of _ i st en])
  next
    case True
    have l: "abs_tree s' (2 * i) st ((st + en) div 2) = abs_tree s (2 * i) st ((st + en) div 2)"
      using nodes_left_sub [OF True, of i] by (intro "1.IH"(1) [OF True] "1.prems") blast
    have r: "abs_tree s' (2 * i + 1) ((st + en) div 2 + 1) en =
        abs_tree s (2 * i + 1) ((st + en) div 2 + 1) en"
      using nodes_right_sub [OF True, of i] by (intro "1.IH"(2) [OF True] "1.prems") blast
    from True self l r show ?thesis
      by (simp add: abs_tree.simps [of _ i st en])
  qed
qed

lemma abs_tree_frame:
  "frame S s s' \<Longrightarrow> S \<inter> nodes i st en = {} \<Longrightarrow> abs_tree s' i st en = abs_tree s i st en"
  by (rule abs_tree_cong) (auto simp: frame_def)

lemma abs_tree_root:
  assumes "1 \<le> i"
    and "\<And>j. j \<in> nodes i st en \<Longrightarrow> j \<noteq> i \<Longrightarrow>
      segment_tree s' ! j = segment_tree s ! j \<and> lazy s' ! j = lazy s ! j"
  shows "abs_tree s' i st en =
    root_upd (abs_tree s i st en) (segment_tree s' ! i) (lazy s' ! i)"
proof (cases "st < en")
  case False
  then show ?thesis by (simp add: abs_tree.simps [of _ i st en])
next
  case True
  have l: "abs_tree s' (2 * i) st ((st + en) div 2) = abs_tree s (2 * i) st ((st + en) div 2)"
  proof (rule abs_tree_cong)
    fix j assume j: "j \<in> nodes (2 * i) st ((st + en) div 2)"
    then have "j \<in> nodes i st en" "j \<noteq> i"
      using nodes_left_sub [OF True, of i] nodes_left_not_parent [OF assms(1) j] by auto
    then show "segment_tree s' ! j = segment_tree s ! j \<and> lazy s' ! j = lazy s ! j"
      by (rule assms(2))
  qed
  have r: "abs_tree s' (2 * i + 1) ((st + en) div 2 + 1) en =
      abs_tree s (2 * i + 1) ((st + en) div 2 + 1) en"
  proof (rule abs_tree_cong)
    fix j assume j: "j \<in> nodes (2 * i + 1) ((st + en) div 2 + 1) en"
    then have "j \<in> nodes i st en" "j \<noteq> i"
      using nodes_right_sub [OF True, of i] nodes_right_not_parent [OF assms(1) j] by auto
    then show "segment_tree s' ! j = segment_tree s ! j \<and> lazy s' ! j = lazy s ! j"
      by (rule assms(2))
  qed
  from True l r show ?thesis by (simp add: abs_tree.simps [of _ i st en])
qed

section \<open>The member functions act on the stored tree\<close>

text \<open>
  Each member function is simulated by a function on trees: on a well-formed state and
  a valid node the array code fails exactly when the tree function does, and otherwise
  returns a state that stores the tree function's result and is unchanged outside the
  node's subtree. In particular no access is out of bounds.
\<close>

definition sim ::
  "SegmentTree \<Rightarrow> nat \<Rightarrow> nat \<Rightarrow> nat \<Rightarrow> ltree option \<Rightarrow> SegmentTree option \<Rightarrow> bool" where
  "sim s i st en ot os \<longleftrightarrow>
     (case ot of
        None \<Rightarrow> os = None
      | Some t \<Rightarrow> (\<exists>s'. os = Some s' \<and> abs_tree s' i st en = t \<and> frame (nodes i st en) s s'))"

lemma simD_Some:
  "sim s i st en (Some t) os \<Longrightarrow>
   \<exists>s'. os = Some s' \<and> abs_tree s' i st en = t \<and> frame (nodes i st en) s s'"
  by (simp add: sim_def)

lemma t_push_zero: "tz t = 0 \<Longrightarrow> t_push t = Some t"
  by (cases t) simp_all

lemma wfs_bounds:
  assumes "wfs s" "vnode (n s) i st en"
  shows "i < length (segment_tree s)" "i < length (lazy s)" "1 \<le> i" "st < length (ar s)"
  using assms by (simp_all add: wfs_def vnode_def)

lemma wfs_child_bounds:
  assumes "wfs s" "vnode (n s) i st en" "st < en"
  shows "2 * i < length (segment_tree s)" "2 * i + 1 < length (segment_tree s)"
    "2 * i < length (lazy s)" "2 * i + 1 < length (lazy s)"
  using vnode_child_bound [OF assms(2,3)] assms(1) by (simp_all add: wfs_def)

lemma upd_outside: "i \<in> S \<Longrightarrow> j \<notin> S \<Longrightarrow> xs[i := v] ! j = xs ! j"
  by (rule nth_list_update_neq) blast

lemma push_sim:
  assumes w: "wfs s" and v: "vnode (n s) i st en"
  shows "sim s i st en (t_push (abs_tree s i st en)) (push s i st en)"
proof -
  note b = wfs_bounds [OF w v]
  show ?thesis
  proof (cases "lazy s ! i = 0")
    case True
    have "push s i st en = Some s"
      using True b by (simp add: push_def rd_def)
    moreover have "t_push (abs_tree s i st en) = Some (abs_tree s i st en)"
      using True by (simp add: t_push_zero)
    ultimately show ?thesis by (simp add: sim_def frame_refl)
  next
    case nz: False
    show ?thesis
    proof (cases "st < en")
      case False
      with v have eq: "st = en" by (simp add: vnode_def)
      have abs: "abs_tree s i st en = Leaf (segment_tree s ! i) (lazy s ! i)"
        using False by (simp add: abs_tree.simps [of s i st en])
      show ?thesis
      proof (cases "add_ll (segment_tree s ! i) (lazy s ! i)")
        case None
        then have "push s i st en = None"
          using nz b by (simp add: push_def rd_def)
        with None nz show ?thesis by (simp add: abs sim_def)
      next
        case (Some v')
        define s' where "s' = s\<lparr>segment_tree := (segment_tree s)[i := v'],
          lazy := (lazy s)[i := 0]\<rparr>"
        have p: "push s i st en = Some s'"
          using nz b Some eq by (simp add: push_def rd_def wr_def s'_def)
        have a: "abs_tree s' i st en = Leaf v' 0"
          using False b by (subst abs_tree.simps) (simp add: s'_def)
        have f: "frame (nodes i st en) s s'"
          unfolding frame_def s'_def using nodes_self [of i st en] by (simp add: upd_outside)
        from p a f Some nz show ?thesis by (simp add: abs sim_def)
      qed
    next
      case True
      note c = wfs_child_bounds [OF w v True]
      let ?m = "(st + en) div 2"
      let ?A = "abs_tree s (2 * i) st ?m"
      let ?B = "abs_tree s (2 * i + 1) (?m + 1) en"
      have abs: "abs_tree s i st en = Node (segment_tree s ! i) (lazy s ! i) ?A ?B"
        using True by (simp add: abs_tree.simps [of s i st en])
      have ne: "2 * i \<noteq> i" "2 * i + 1 \<noteq> i" "i \<noteq> 2 * i" "i \<noteq> 2 * i + 1"
        using b(3) by simp_all
      show ?thesis
      proof (cases "add_ll (segment_tree s ! i) (lazy s ! i)")
        case None
        then have "push s i st en = None"
          using nz b by (simp add: push_def rd_def)
        with None nz show ?thesis by (simp add: abs sim_def)
      next
        case v': (Some v')
        show ?thesis
        proof (cases "add_ll (lazy s ! (2 * i)) (lazy s ! i)")
          case None
          then have "push s i st en = None"
            using nz b c True v' by (simp add: push_def rd_def wr_def)
          with None v' nz show ?thesis by (simp add: abs sim_def)
        next
          case za: (Some za)
          show ?thesis
          proof (cases "add_ll (lazy s ! (2 * i + 1)) (lazy s ! i)")
            case None
            then have "push s i st en = None"
              using nz b c True v' za by (simp add: push_def rd_def wr_def)
            with None v' za nz show ?thesis by (simp add: abs sim_def)
          next
            case zb: (Some zb)
            define s' where "s' = s\<lparr>segment_tree := (segment_tree s)[i := v'],
              lazy := (lazy s)[2 * i := za, 2 * i + 1 := zb, i := 0]\<rparr>"
            have p: "push s i st en = Some s'"
              using nz b c True v' za zb by (simp add: push_def rd_def wr_def s'_def)
            have f: "frame (nodes i st en) s s'"
            proof -
              have "i \<in> nodes i st en" "2 * i \<in> nodes i st en" "2 * i + 1 \<in> nodes i st en"
                using nodes_self nodes_left_sub [OF True, of i] nodes_right_sub [OF True, of i]
                by blast+
              then show ?thesis unfolding frame_def s'_def by (simp add: upd_outside)
            qed
            have l: "abs_tree s' (2 * i) st ?m = root_upd ?A (tv ?A) za"
            proof -
              have "abs_tree s' (2 * i) st ?m =
                root_upd ?A (segment_tree s' ! (2 * i)) (lazy s' ! (2 * i))"
              proof (rule abs_tree_root)
                show "1 \<le> 2 * i" using b(3) by simp
                fix j assume j: "j \<in> nodes (2 * i) st ?m" and "j \<noteq> 2 * i"
                moreover have "j \<noteq> i" using nodes_left_not_parent [OF b(3) j] .
                moreover have "j \<noteq> 2 * i + 1"
                  using nodes_disjoint [OF b(3) j] nodes_self by blast
                ultimately show "segment_tree s' ! j = segment_tree s ! j \<and>
                    lazy s' ! j = lazy s ! j"
                  by (simp add: s'_def)
              qed
              then show ?thesis using c ne by (simp add: s'_def)
            qed
            have r: "abs_tree s' (2 * i + 1) (?m + 1) en = root_upd ?B (tv ?B) zb"
            proof -
              have "abs_tree s' (2 * i + 1) (?m + 1) en =
                root_upd ?B (segment_tree s' ! (2 * i + 1)) (lazy s' ! (2 * i + 1))"
              proof (rule abs_tree_root)
                show "1 \<le> 2 * i + 1" by simp
                fix j assume j: "j \<in> nodes (2 * i + 1) (?m + 1) en" and "j \<noteq> 2 * i + 1"
                moreover have "j \<noteq> i" using nodes_right_not_parent [OF b(3) j] .
                moreover have "j \<noteq> 2 * i"
                  using nodes_disjoint [OF b(3) _ j] nodes_self by blast
                ultimately show "segment_tree s' ! j = segment_tree s ! j \<and>
                    lazy s' ! j = lazy s ! j"
                  by (simp add: s'_def)
              qed
              then show ?thesis using c ne by (simp add: s'_def)
            qed
            have a: "abs_tree s' i st en =
                Node v' 0 (root_upd ?A (tv ?A) za) (root_upd ?B (tv ?B) zb)"
              using True b l r by (simp add: abs_tree.simps [of s' i st en]) (simp add: s'_def)
            from p a f v' za zb nz show ?thesis by (simp add: abs sim_def)
          qed
        qed
      qed
    qed
  qed
qed

lemma size_root_upd [simp]: "size (root_upd t v z) = size t"
  by (cases t) simp_all

lemma tv_root_upd [simp]: "tv (root_upd t v z) = v"
  by (cases t) simp_all

lemma tz_root_upd [simp]: "tz (root_upd t v z) = z"
  by (cases t) simp_all

lemma t_push_child_size:
  "t_push t = Some (Node v z a b) \<Longrightarrow> size a < size t \<and> size b < size t"
  by (cases t) (auto split: if_splits simp: bind_eq_Some_conv)

function t_update ::
  "ltree \<Rightarrow> nat \<Rightarrow> nat \<Rightarrow> nat \<Rightarrow> nat \<Rightarrow> int \<Rightarrow> ltree option" where
  "t_update t st en l r val = do {
     t1 \<leftarrow> t_push t;
     if st > en \<or> st > r \<or> en < l then Some t1
     else if l \<le> st \<and> en \<le> r then do {
       z' \<leftarrow> add_ll (tz t1) val;
       t_push (root_upd t1 (tv t1) z')
     } else (case t1 of
         Leaf v z \<Rightarrow> None
       | Node v z a b \<Rightarrow> do {
           a' \<leftarrow> t_update a st ((st + en) div 2) l r val;
           b' \<leftarrow> t_update b ((st + en) div 2 + 1) en l r val;
           Some (Node (min (tv a') (tv b')) z a' b')
         })
   }"
  by pat_completeness auto
termination
  by (relation "measure (\<lambda>(t, st, en, l, r, val). size t)")
    (auto dest: t_push_child_size)

function t_query ::
  "ltree \<Rightarrow> nat \<Rightarrow> nat \<Rightarrow> nat \<Rightarrow> nat \<Rightarrow> (int \<times> ltree) option" where
  "t_query t st en l r = do {
     t1 \<leftarrow> t_push t;
     if r < st \<or> l > en then Some (INF_ll, t1)
     else if l \<le> st \<and> en \<le> r then Some (tv t1, t1)
     else (case t1 of
         Leaf v z \<Rightarrow> None
       | Node v z a b \<Rightarrow> do {
           (x, a') \<leftarrow> t_query a st ((st + en) div 2) l r;
           (y, b') \<leftarrow> t_query b ((st + en) div 2 + 1) en l r;
           Some (min x y, Node v z a' b')
         })
   }"
  by pat_completeness auto
termination
  by (relation "measure (\<lambda>(t, st, en, l, r). size t)")
    (auto dest: t_push_child_size)

declare t_update.simps [simp del] t_query.simps [simp del]

lemma vnode_lt_or_eq: "vnode N i st en \<Longrightarrow> \<not> st < en \<Longrightarrow> st = en"
  by (simp add: vnode_def)

text \<open>Two children updated one after the other.\<close>

lemma children_seq:
  assumes i: "1 \<le> i" and lt: "st < en"
    and f1: "frame (nodes (2 * i) st ((st + en) div 2)) s1 s2"
    and f2: "frame (nodes (2 * i + 1) ((st + en) div 2 + 1) en) s2 s3"
  shows "abs_tree s2 (2 * i + 1) ((st + en) div 2 + 1) en =
           abs_tree s1 (2 * i + 1) ((st + en) div 2 + 1) en"
    and "abs_tree s3 (2 * i) st ((st + en) div 2) = abs_tree s2 (2 * i) st ((st + en) div 2)"
    and "lazy s3 ! i = lazy s1 ! i"
    and "segment_tree s3 ! i = segment_tree s1 ! i"
    and "frame (nodes i st en) s1 s3"
proof -
  have d: "nodes (2 * i) st ((st + en) div 2) \<inter> nodes (2 * i + 1) ((st + en) div 2 + 1) en = {}"
    using nodes_disjoint [OF i] by blast
  show "abs_tree s2 (2 * i + 1) ((st + en) div 2 + 1) en =
           abs_tree s1 (2 * i + 1) ((st + en) div 2 + 1) en"
    by (rule abs_tree_frame [OF f1 d])
  show "abs_tree s3 (2 * i) st ((st + en) div 2) = abs_tree s2 (2 * i) st ((st + en) div 2)"
    using d by (intro abs_tree_frame [OF f2]) blast
  have n1: "i \<notin> nodes (2 * i) st ((st + en) div 2)"
    using nodes_left_not_parent [OF i] by blast
  have n2: "i \<notin> nodes (2 * i + 1) ((st + en) div 2 + 1) en"
    using nodes_right_not_parent [OF i] by blast
  show "lazy s3 ! i = lazy s1 ! i" "segment_tree s3 ! i = segment_tree s1 ! i"
    using f1 f2 n1 n2 by (simp_all add: frame_def)
  show "frame (nodes i st en) s1 s3"
    by (rule frame_trans [OF frame_mono [OF f1 nodes_left_sub [OF lt]]
          frame_mono [OF f2 nodes_right_sub [OF lt]]])
qed

text \<open>Writing the stored value of a node.\<close>

lemma write_root:
  assumes i: "1 \<le> i" and lt: "st < en" and b: "i < length (segment_tree s)"
    and s': "s' = s\<lparr>segment_tree := (segment_tree s)[i := x]\<rparr>"
  shows "abs_tree s' i st en =
      Node x (lazy s ! i) (abs_tree s (2 * i) st ((st + en) div 2))
        (abs_tree s (2 * i + 1) ((st + en) div 2 + 1) en)"
    and "frame (nodes i st en) s s'"
proof -
  have "abs_tree s' i st en = root_upd (abs_tree s i st en) (segment_tree s' ! i) (lazy s' ! i)"
    by (rule abs_tree_root [OF i]) (simp add: s')
  also have "\<dots> = Node x (lazy s ! i) (abs_tree s (2 * i) st ((st + en) div 2))
        (abs_tree s (2 * i + 1) ((st + en) div 2 + 1) en)"
    using lt b by (subst abs_tree.simps) (simp add: s')
  finally show "abs_tree s' i st en =
      Node x (lazy s ! i) (abs_tree s (2 * i) st ((st + en) div 2))
        (abs_tree s (2 * i + 1) ((st + en) div 2 + 1) en)" .
  show "frame (nodes i st en) s s'"
    unfolding frame_def s' using nodes_self [of i st en] by (simp add: upd_outside)
qed

lemma write_lazy_root:
  assumes i: "1 \<le> i" and b: "i < length (lazy s)"
    and s': "s' = s\<lparr>lazy := (lazy s)[i := z]\<rparr>"
  shows "abs_tree s' i st en = root_upd (abs_tree s i st en) (segment_tree s ! i) z"
    and "frame (nodes i st en) s s'"
proof -
  have "abs_tree s' i st en = root_upd (abs_tree s i st en) (segment_tree s' ! i) (lazy s' ! i)"
    by (rule abs_tree_root [OF i]) (simp add: s')
  then show "abs_tree s' i st en = root_upd (abs_tree s i st en) (segment_tree s ! i) z"
    using b by (simp add: s')
  show "frame (nodes i st en) s s'"
    unfolding frame_def s' using nodes_self [of i st en] by (simp add: upd_outside)
qed

lemma frame_vnode: "frame S s s' \<Longrightarrow> vnode (n s) i st en \<Longrightarrow> vnode (n s') i st en"
  by (simp add: frame_def)

lemma rangeUpdate_sim:
  "wfs s \<Longrightarrow> vnode (n s) i st en \<Longrightarrow>
   sim s i st en (t_update (abs_tree s i st en) st en l r val) (rangeUpdate s i st en l r val)"
proof (induction "en - st" arbitrary: s i st en rule: less_induct)
  case less
  note w = \<open>wfs s\<close> and v = \<open>vnode (n s) i st en\<close>
  let ?t = "abs_tree s i st en"
  have se: "st \<le> en" using v by (simp add: vnode_def)
  show ?case
  proof (cases "t_push ?t")
    case None
    with push_sim [OF w v] have "push s i st en = None" by (simp add: sim_def)
    then have "rangeUpdate s i st en l r val = None"
      by (subst rangeUpdate.simps) simp
    moreover have "t_update ?t st en l r val = None"
      using None by (subst t_update.simps) simp
    ultimately show ?thesis by (simp add: sim_def)
  next
    case (Some t1)
    with push_sim [OF w v] obtain s1 where p: "push s i st en = Some s1"
      and a1: "abs_tree s1 i st en = t1" and f1: "frame (nodes i st en) s s1"
      by (auto simp: sim_def)
    have w1: "wfs s1" by (rule frame_wfs [OF f1 w])
    have v1: "vnode (n s1) i st en" by (rule frame_vnode [OF f1 v])
    note b1 = wfs_bounds [OF w1 v1]
    show ?thesis
    proof (cases "st > r \<or> en < l")
      case True
      have "rangeUpdate s i st en l r val = Some s1"
        using p True by (subst rangeUpdate.simps) auto
      moreover have "t_update ?t st en l r val = Some t1"
        using Some True by (subst t_update.simps) auto
      ultimately show ?thesis using a1 f1 by (simp add: sim_def)
    next
      case no: False
      show ?thesis
      proof (cases "l \<le> st \<and> en \<le> r")
        case True
        have ru: "rangeUpdate s i st en l r val = do {
            z' \<leftarrow> add_ll (lazy s1 ! i) val;
            push (s1\<lparr>lazy := (lazy s1)[i := z']\<rparr>) i st en }"
          using p True no se b1 by (subst rangeUpdate.simps) (auto simp: rd_def wr_def)
        have tu: "t_update ?t st en l r val = do {
            z' \<leftarrow> add_ll (tz t1) val;
            t_push (root_upd t1 (tv t1) z') }"
          using Some True no se by (subst t_update.simps) auto
        have tz1: "tz t1 = lazy s1 ! i" "tv t1 = segment_tree s1 ! i"
          using a1 [symmetric] by simp_all
        show ?thesis
        proof (cases "add_ll (lazy s1 ! i) val")
          case None
          then show ?thesis by (simp add: ru tu tz1 sim_def)
        next
          case z': (Some z')
          define s2 where "s2 = s1\<lparr>lazy := (lazy s1)[i := z']\<rparr>"
          have a2: "abs_tree s2 i st en = root_upd t1 (tv t1) z'"
            using write_lazy_root(1) [OF b1(3) b1(2) s2_def] a1 tz1 by simp
          have f2: "frame (nodes i st en) s1 s2"
            by (rule write_lazy_root(2) [OF b1(3) b1(2) s2_def])
          have w2: "wfs s2" by (rule frame_wfs [OF f2 w1])
          have v2: "vnode (n s2) i st en" by (rule frame_vnode [OF f2 v1])
          have "sim s2 i st en (t_push (root_upd t1 (tv t1) z')) (push s2 i st en)"
            using push_sim [OF w2 v2] by (simp add: a2)
          then have "sim s i st en (t_push (root_upd t1 (tv t1) z')) (push s2 i st en)"
            using frame_trans [OF frame_trans [OF f1 f2]]
            by (auto simp: sim_def split: option.splits)
          then show ?thesis by (simp add: ru tu tz1 z' s2_def)
        qed
      next
        case part: False
        with no se have lt: "st < en" by linarith
        let ?m = "(st + en) div 2"
        note vl = vnode_left [OF v1 lt] and vr = vnode_right [OF v1 lt]
        note c1 = wfs_child_bounds [OF w1 v1 lt]
        have t1: "t1 = Node (segment_tree s1 ! i) (lazy s1 ! i)
            (abs_tree s1 (2 * i) st ?m) (abs_tree s1 (2 * i + 1) (?m + 1) en)"
          using a1 [symmetric] lt by (subst (asm) abs_tree.simps) simp
        have ru: "rangeUpdate s i st en l r val = do {
            s2 \<leftarrow> rangeUpdate s1 (2 * i) st ?m l r val;
            s3 \<leftarrow> rangeUpdate s2 (2 * i + 1) (?m + 1) en l r val;
            a \<leftarrow> rd (segment_tree s3) (2 * i);
            b \<leftarrow> rd (segment_tree s3) (2 * i + 1);
            t \<leftarrow> wr (segment_tree s3) i (min a b);
            Some (s3\<lparr>segment_tree := t\<rparr>) }"
          using se by (subst rangeUpdate.simps) (simp add: Let_def p part no)
        have tu: "t_update ?t st en l r val = do {
            a' \<leftarrow> t_update (abs_tree s1 (2 * i) st ?m) st ?m l r val;
            b' \<leftarrow> t_update (abs_tree s1 (2 * i + 1) (?m + 1) en) (?m + 1) en l r val;
            Some (Node (min (tv a') (tv b')) (lazy s1 ! i) a' b') }"
          using se by (subst t_update.simps) (simp add: Some part no, simp add: t1)
        have IH1: "sim s1 (2 * i) st ?m (t_update (abs_tree s1 (2 * i) st ?m) st ?m l r val)
            (rangeUpdate s1 (2 * i) st ?m l r val)"
          using lt by (intro less.hyps w1 vl) linarith
        show ?thesis
        proof (cases "t_update (abs_tree s1 (2 * i) st ?m) st ?m l r val")
          case None
          with IH1 show ?thesis by (simp add: ru tu sim_def)
        next
          case a': (Some a')
          with IH1 obtain s2 where r2: "rangeUpdate s1 (2 * i) st ?m l r val = Some s2"
            and a2: "abs_tree s2 (2 * i) st ?m = a'"
            and f2: "frame (nodes (2 * i) st ?m) s1 s2"
            by (auto simp: sim_def)
          have w2: "wfs s2" by (rule frame_wfs [OF f2 w1])
          have "sim s2 (2 * i + 1) (?m + 1) en
              (t_update (abs_tree s2 (2 * i + 1) (?m + 1) en) (?m + 1) en l r val)
              (rangeUpdate s2 (2 * i + 1) (?m + 1) en l r val)"
            using lt by (intro less.hyps w2 frame_vnode [OF f2 vr]) linarith
          then have IH2: "sim s2 (2 * i + 1) (?m + 1) en
              (t_update (abs_tree s1 (2 * i + 1) (?m + 1) en) (?m + 1) en l r val)
              (rangeUpdate s2 (2 * i + 1) (?m + 1) en l r val)"
            using abs_tree_frame [OF f2, of "2 * i + 1" "?m + 1" en] nodes_disjoint [OF b1(3)]
            by (metis disjoint_iff)
          show ?thesis
          proof (cases "t_update (abs_tree s1 (2 * i + 1) (?m + 1) en) (?m + 1) en l r val")
            case None
            with IH2 show ?thesis by (simp add: ru tu a' r2 sim_def)
          next
            case b': (Some b')
            with IH2 obtain s3 where r3: "rangeUpdate s2 (2 * i + 1) (?m + 1) en l r val = Some s3"
              and a3: "abs_tree s3 (2 * i + 1) (?m + 1) en = b'"
              and f3: "frame (nodes (2 * i + 1) (?m + 1) en) s2 s3"
              by (auto simp: sim_def)
            note cs = children_seq [OF b1(3) lt f2 f3]
            have w3: "wfs s3" by (rule frame_wfs [OF f3 w2])
            have v3: "vnode (n s3) i st en"
              by (rule frame_vnode [OF f3 frame_vnode [OF f2 v1]])
            note b3 = wfs_bounds [OF w3 v3] and c3 = wfs_child_bounds [OF w3 v3 lt]
            define s4 where "s4 = s3\<lparr>segment_tree :=
              (segment_tree s3)[i := min (segment_tree s3 ! (2 * i)) (segment_tree s3 ! (2 * i + 1))]\<rparr>"
            have r4: "rangeUpdate s i st en l r val = Some s4"
              using b3 c3 r2 r3 by (simp add: ru rd_def wr_def s4_def)
            have tva: "tv a' = segment_tree s3 ! (2 * i)"
              using cs(2) a2 tv_abs [of s3 "2 * i" st ?m] by simp
            have tvb: "tv b' = segment_tree s3 ! (2 * i + 1)"
              using a3 tv_abs [of s3 "2 * i + 1" "?m + 1" en] by simp
            have a4: "abs_tree s4 i st en = Node (min (tv a') (tv b')) (lazy s1 ! i) a' b'"
              using write_root(1) [OF b1(3) lt b3(1) s4_def] cs(2,3) a2 a3 tva tvb by simp
            have f4: "frame (nodes i st en) s s4"
              by (rule frame_trans [OF f1 frame_trans [OF cs(5)
                    write_root(2) [OF b1(3) lt b3(1) s4_def]]])
            show ?thesis using r4 a4 f4 a' b' by (simp add: tu sim_def)
          qed
        qed
      qed
    qed
  qed
qed

definition sim_q ::
  "SegmentTree \<Rightarrow> nat \<Rightarrow> nat \<Rightarrow> nat \<Rightarrow> (int \<times> ltree) option \<Rightarrow>
   (int \<times> SegmentTree) option \<Rightarrow> bool" where
  "sim_q s i st en ot os \<longleftrightarrow>
     (case ot of
        None \<Rightarrow> os = None
      | Some (x, t) \<Rightarrow>
          (\<exists>s'. os = Some (x, s') \<and> abs_tree s' i st en = t \<and> frame (nodes i st en) s s'))"

lemma query_sim:
  "wfs s \<Longrightarrow> vnode (n s) i st en \<Longrightarrow>
   sim_q s i st en (t_query (abs_tree s i st en) st en l r) (query s st en i l r)"
proof (induction "en - st" arbitrary: s i st en rule: less_induct)
  case less
  note w = \<open>wfs s\<close> and v = \<open>vnode (n s) i st en\<close>
  let ?t = "abs_tree s i st en"
  have se: "st \<le> en" using v by (simp add: vnode_def)
  show ?case
  proof (cases "t_push ?t")
    case None
    with push_sim [OF w v] have "push s i st en = None" by (simp add: sim_def)
    then have "query s st en i l r = None"
      by (subst query.simps) simp
    moreover have "t_query ?t st en l r = None"
      using None by (subst t_query.simps) simp
    ultimately show ?thesis by (simp add: sim_q_def)
  next
    case (Some t1)
    with push_sim [OF w v] obtain s1 where p: "push s i st en = Some s1"
      and a1: "abs_tree s1 i st en = t1" and f1: "frame (nodes i st en) s s1"
      by (auto simp: sim_def)
    have w1: "wfs s1" by (rule frame_wfs [OF f1 w])
    have v1: "vnode (n s1) i st en" by (rule frame_vnode [OF f1 v])
    note b1 = wfs_bounds [OF w1 v1]
    show ?thesis
    proof (cases "r < st \<or> l > en")
      case True
      have "query s st en i l r = Some (INF_ll, s1)"
        by (subst query.simps) (simp add: p True)
      moreover have "t_query ?t st en l r = Some (INF_ll, t1)"
        by (subst t_query.simps) (simp add: Some True)
      ultimately show ?thesis using a1 f1 by (simp add: sim_q_def)
    next
      case no: False
      show ?thesis
      proof (cases "l \<le> st \<and> en \<le> r")
        case True
        have "query s st en i l r = Some (segment_tree s1 ! i, s1)"
          using b1 by (subst query.simps) (simp add: p True no rd_def)
        moreover have "t_query ?t st en l r = Some (tv t1, t1)"
          by (subst t_query.simps) (simp add: Some True no)
        moreover have "tv t1 = segment_tree s1 ! i" using a1 [symmetric] by simp
        ultimately show ?thesis using a1 f1 by (simp add: sim_q_def)
      next
        case part: False
        with no se have lt: "st < en" by linarith
        let ?m = "(st + en) div 2"
        note vl = vnode_left [OF v1 lt] and vr = vnode_right [OF v1 lt]
        have t1: "t1 = Node (segment_tree s1 ! i) (lazy s1 ! i)
            (abs_tree s1 (2 * i) st ?m) (abs_tree s1 (2 * i + 1) (?m + 1) en)"
          using a1 [symmetric] lt by (subst (asm) abs_tree.simps) simp
        have qu: "query s st en i l r = do {
            (x, s2) \<leftarrow> query s1 st ?m (2 * i) l r;
            (y, s3) \<leftarrow> query s2 (?m + 1) en (2 * i + 1) l r;
            Some (min x y, s3) }"
          by (subst query.simps) (simp add: Let_def p part no)
        have tq: "t_query ?t st en l r = do {
            (x, a') \<leftarrow> t_query (abs_tree s1 (2 * i) st ?m) st ?m l r;
            (y, b') \<leftarrow> t_query (abs_tree s1 (2 * i + 1) (?m + 1) en) (?m + 1) en l r;
            Some (min x y, Node (segment_tree s1 ! i) (lazy s1 ! i) a' b') }"
          by (subst t_query.simps) (simp add: Some part no, simp add: t1)
        have IH1: "sim_q s1 (2 * i) st ?m (t_query (abs_tree s1 (2 * i) st ?m) st ?m l r)
            (query s1 st ?m (2 * i) l r)"
          using lt by (intro less.hyps w1 vl) linarith
        show ?thesis
        proof (cases "t_query (abs_tree s1 (2 * i) st ?m) st ?m l r")
          case None
          with IH1 show ?thesis by (simp add: qu tq sim_q_def)
        next
          case xa: (Some xa)
          obtain x a' where xa': "xa = (x, a')" by (cases xa)
          with xa IH1 obtain s2 where r2: "query s1 st ?m (2 * i) l r = Some (x, s2)"
            and a2: "abs_tree s2 (2 * i) st ?m = a'"
            and f2: "frame (nodes (2 * i) st ?m) s1 s2"
            by (auto simp: sim_q_def)
          have w2: "wfs s2" by (rule frame_wfs [OF f2 w1])
          have "sim_q s2 (2 * i + 1) (?m + 1) en
              (t_query (abs_tree s2 (2 * i + 1) (?m + 1) en) (?m + 1) en l r)
              (query s2 (?m + 1) en (2 * i + 1) l r)"
            using lt by (intro less.hyps w2 frame_vnode [OF f2 vr]) linarith
          then have IH2: "sim_q s2 (2 * i + 1) (?m + 1) en
              (t_query (abs_tree s1 (2 * i + 1) (?m + 1) en) (?m + 1) en l r)
              (query s2 (?m + 1) en (2 * i + 1) l r)"
            using abs_tree_frame [OF f2, of "2 * i + 1" "?m + 1" en] nodes_disjoint [OF b1(3)]
            by (metis disjoint_iff)
          show ?thesis
          proof (cases "t_query (abs_tree s1 (2 * i + 1) (?m + 1) en) (?m + 1) en l r")
            case None
            with IH2 xa xa' r2 show ?thesis by (simp add: qu tq sim_q_def)
          next
            case yb: (Some yb)
            obtain y b' where yb': "yb = (y, b')" by (cases yb)
            with yb IH2 obtain s3 where r3: "query s2 (?m + 1) en (2 * i + 1) l r = Some (y, s3)"
              and a3: "abs_tree s3 (2 * i + 1) (?m + 1) en = b'"
              and f3: "frame (nodes (2 * i + 1) (?m + 1) en) s2 s3"
              by (auto simp: sim_q_def)
            note cs = children_seq [OF b1(3) lt f2 f3]
            have r4: "query s st en i l r = Some (min x y, s3)"
              using r2 r3 by (simp add: qu)
            have "abs_tree s3 i st en = Node (segment_tree s3 ! i) (lazy s3 ! i)
                (abs_tree s3 (2 * i) st ?m) (abs_tree s3 (2 * i + 1) (?m + 1) en)"
              using lt by (subst abs_tree.simps) simp
            then have a4: "abs_tree s3 i st en =
                Node (segment_tree s1 ! i) (lazy s1 ! i) a' b'"
              using cs(2,3,4) a2 a3 by simp
            have f4: "frame (nodes i st en) s s3"
              by (rule frame_trans [OF f1 cs(5)])
            show ?thesis using r4 a4 f4 xa xa' yb yb' by (simp add: tq sim_q_def)
          qed
        qed
      qed
    qed
  qed
qed

function t_build :: "int list \<Rightarrow> nat \<Rightarrow> nat \<Rightarrow> ltree" where
  "t_build xs st en =
     (if st < en
      then Node (min (tv (t_build xs st ((st + en) div 2)))
                     (tv (t_build xs ((st + en) div 2 + 1) en))) 0
             (t_build xs st ((st + en) div 2))
             (t_build xs ((st + en) div 2 + 1) en)
      else Leaf (xs ! st) 0)"
  by pat_completeness auto
termination
  by (relation "measure (\<lambda>(xs, st, en). en - st)") auto

declare t_build.simps [simp del]

lemma nodes_bound: "vnode N i st en \<Longrightarrow> j \<in> nodes i st en \<Longrightarrow> j < 4 * N"
proof (induction i st en rule: nodes.induct)
  case (1 i st en)
  show ?case
  proof (cases "st < en")
    case False
    with "1.prems"(2) have "j = i" by (simp add: nodes.simps [of i st en])
    with "1.prems"(1) show ?thesis by (simp add: vnode_def)
  next
    case True
    from "1.prems"(2) True consider "j = i" | "j \<in> nodes (2 * i) st ((st + en) div 2)"
      | "j \<in> nodes (2 * i + 1) ((st + en) div 2 + 1) en"
      by (auto simp: nodes.simps [of i st en])
    then show ?thesis
    proof cases
      case 1
      with "1.prems"(1) show ?thesis by (simp add: vnode_def)
    next
      case 2
      show ?thesis by (rule "1.IH"(1) [OF True vnode_left [OF "1.prems"(1) True] 2])
    next
      case 3
      show ?thesis by (rule "1.IH"(2) [OF True vnode_right [OF "1.prems"(1) True] 3])
    qed
  qed
qed

lemma buildTree_sim:
  "wfs s \<Longrightarrow> vnode (n s) i st en \<Longrightarrow> (\<And>j. j \<in> nodes i st en \<Longrightarrow> lazy s ! j = 0) \<Longrightarrow>
   \<exists>s'. buildTree s st en i = Some s' \<and> abs_tree s' i st en = t_build (ar s) st en \<and>
        frame (nodes i st en) s s'"
proof (induction "en - st" arbitrary: s i st en rule: less_induct)
  case less
  note w = \<open>wfs s\<close> and v = \<open>vnode (n s) i st en\<close>
  note b = wfs_bounds [OF w v]
  show ?case
  proof (cases "st < en")
    case False
    then have eq: "st = en" by (rule vnode_lt_or_eq [OF v])
    define s' where "s' = s\<lparr>segment_tree := (segment_tree s)[i := ar s ! st]\<rparr>"
    have "buildTree s st en i = Some s'"
      using b eq by (subst buildTree.simps) (simp add: rd_def wr_def s'_def)
    moreover have "abs_tree s' i st en = t_build (ar s) st en"
      using False b less.prems(3) [OF nodes_self]
      by (subst abs_tree.simps, subst t_build.simps) (simp add: s'_def)
    moreover have "frame (nodes i st en) s s'"
      unfolding frame_def s'_def using nodes_self [of i st en] by (simp add: upd_outside)
    ultimately show ?thesis by blast
  next
    case lt: True
    let ?m = "(st + en) div 2"
    note vl = vnode_left [OF v lt] and vr = vnode_right [OF v lt]
    have "\<exists>s1. buildTree s st ?m (2 * i) = Some s1 \<and>
        abs_tree s1 (2 * i) st ?m = t_build (ar s) st ?m \<and>
        frame (nodes (2 * i) st ?m) s s1"
    proof (rule less.hyps [OF _ w vl])
      show "?m - st < en - st" using lt by linarith
      fix j assume "j \<in> nodes (2 * i) st ?m"
      then show "lazy s ! j = 0" using nodes_left_sub [OF lt, of i] less.prems(3) by blast
    qed
    then obtain s1 where r1: "buildTree s st ?m (2 * i) = Some s1"
      and a1: "abs_tree s1 (2 * i) st ?m = t_build (ar s) st ?m"
      and f1: "frame (nodes (2 * i) st ?m) s s1" by blast
    have w1: "wfs s1" by (rule frame_wfs [OF f1 w])
    have ar1: "ar s1 = ar s" using f1 by (simp add: frame_def)
    have "\<exists>s2. buildTree s1 (?m + 1) en (2 * i + 1) = Some s2 \<and>
        abs_tree s2 (2 * i + 1) (?m + 1) en = t_build (ar s1) (?m + 1) en \<and>
        frame (nodes (2 * i + 1) (?m + 1) en) s1 s2"
    proof (rule less.hyps [OF _ w1 frame_vnode [OF f1 vr]])
      show "en - (?m + 1) < en - st" using lt by linarith
      fix j assume j: "j \<in> nodes (2 * i + 1) (?m + 1) en"
      then have "j \<notin> nodes (2 * i) st ?m" using nodes_disjoint [OF b(3)] by blast
      then have "lazy s1 ! j = lazy s ! j" using f1 by (simp add: frame_def)
      then show "lazy s1 ! j = 0"
        using j nodes_right_sub [OF lt, of i] less.prems(3) by auto
    qed
    then obtain s2 where r2: "buildTree s1 (?m + 1) en (2 * i + 1) = Some s2"
      and a2: "abs_tree s2 (2 * i + 1) (?m + 1) en = t_build (ar s) (?m + 1) en"
      and f2: "frame (nodes (2 * i + 1) (?m + 1) en) s1 s2" by (auto simp: ar1)
    note cs = children_seq [OF b(3) lt f1 f2]
    have w2: "wfs s2" by (rule frame_wfs [OF f2 w1])
    have v2: "vnode (n s2) i st en" by (rule frame_vnode [OF f2 frame_vnode [OF f1 v]])
    note b2 = wfs_bounds [OF w2 v2] and c2 = wfs_child_bounds [OF w2 v2 lt]
    define s3 where "s3 = s2\<lparr>segment_tree :=
      (segment_tree s2)[i := min (segment_tree s2 ! (2 * i)) (segment_tree s2 ! (2 * i + 1))]\<rparr>"
    have r3: "buildTree s st en i = Some s3"
      using lt b2 c2 r1 r2
      by (subst buildTree.simps) (simp add: Let_def rd_def wr_def s3_def)
    have tva: "tv (t_build (ar s) st ?m) = segment_tree s2 ! (2 * i)"
      using cs(2) a1 tv_abs [of s2 "2 * i" st ?m] by simp
    have tvb: "tv (t_build (ar s) (?m + 1) en) = segment_tree s2 ! (2 * i + 1)"
      using a2 tv_abs [of s2 "2 * i + 1" "?m + 1" en] by simp
    have "lazy s2 ! i = 0" using cs(3) less.prems(3) [OF nodes_self] by simp
    then have a3: "abs_tree s3 i st en = t_build (ar s) st en"
      using write_root(1) [OF b(3) lt b2(1) s3_def] cs(2) a1 a2 tva tvb lt
      by (subst t_build.simps) simp
    have f3: "frame (nodes i st en) s s3"
      by (rule frame_trans [OF cs(5) write_root(2) [OF b(3) lt b2(1) s3_def]])
    from r3 a3 f3 show ?thesis by blast
  qed
qed

lemma SegmentTree_init_sim:
  assumes "arr \<noteq> []"
  shows "\<exists>s. SegmentTree_init arr = Some s \<and> wfs s \<and> ar s = arr \<and> n s = length arr \<and>
    abs_tree s 1 0 (length arr - 1) = t_build arr 0 (length arr - 1)"
proof -
  define s0 where "s0 = \<lparr>ar = arr, segment_tree = replicate (4 * length arr) INF_ll,
         lazy = replicate (4 * length arr) 0, n = length arr\<rparr>"
  have w0: "wfs s0" using assms by (simp add: wfs_def s0_def)
  have v0: "vnode (n s0) 1 0 (length arr - 1)"
    using assms vnode_root [of "length arr"] by (simp add: s0_def)
  have "\<exists>s'. buildTree s0 0 (length arr - 1) 1 = Some s' \<and>
      abs_tree s' 1 0 (length arr - 1) = t_build (ar s0) 0 (length arr - 1) \<and>
      frame (nodes 1 0 (length arr - 1)) s0 s'"
  proof (rule buildTree_sim [OF w0 v0])
    fix j assume "j \<in> nodes 1 0 (length arr - 1)"
    from nodes_bound [OF v0 this] show "lazy s0 ! j = 0" by (simp add: s0_def)
  qed
  then obtain s' where r: "buildTree s0 0 (length arr - 1) 1 = Some s'"
    and a: "abs_tree s' 1 0 (length arr - 1) = t_build (ar s0) 0 (length arr - 1)"
    and f: "frame (nodes 1 0 (length arr - 1)) s0 s'" by blast
  have "SegmentTree_init arr = Some s'"
    using assms r by (simp add: SegmentTree_init_def s0_def)
  moreover have "wfs s'" by (rule frame_wfs [OF f w0])
  moreover have "ar s' = arr" "n s' = length arr" using f by (simp_all add: frame_def s0_def)
  moreover have "abs_tree s' 1 0 (length arr - 1) = t_build arr 0 (length arr - 1)"
    using a by (simp add: s0_def)
  ultimately show ?thesis by blast
qed

section \<open>What the trees mean\<close>

text \<open>
  \<open>lval t st en k\<close> is the logical value of element \<open>k\<close>: the stored value of its leaf
  plus the pending deltas on the path to it. \<open>tinv\<close> is the invariant of the internal
  nodes: the stored value is the minimum of the children's stored value plus pending
  delta.
\<close>

fun shaped :: "ltree \<Rightarrow> nat \<Rightarrow> nat \<Rightarrow> bool" where
  "shaped (Leaf v z) st en \<longleftrightarrow> st = en"
| "shaped (Node v z a b) st en \<longleftrightarrow>
     st < en \<and> shaped a st ((st + en) div 2) \<and> shaped b ((st + en) div 2 + 1) en"

fun lval :: "ltree \<Rightarrow> nat \<Rightarrow> nat \<Rightarrow> nat \<Rightarrow> int" where
  "lval (Leaf v z) st en k = v + z"
| "lval (Node v z a b) st en k =
     z + (if k \<le> (st + en) div 2 then lval a st ((st + en) div 2) k
          else lval b ((st + en) div 2 + 1) en k)"

fun tinv :: "ltree \<Rightarrow> bool" where
  "tinv (Leaf v z) \<longleftrightarrow> True"
| "tinv (Node v z a b) \<longleftrightarrow> v = min (tv a + tz a) (tv b + tz b) \<and> tinv a \<and> tinv b"

lemma shaped_le: "shaped t st en \<Longrightarrow> st \<le> en"
  by (cases t) simp_all

lemma shaped_abs: "st \<le> en \<Longrightarrow> shaped (abs_tree s i st en) st en"
proof (induction s i st en rule: abs_tree.induct)
  case (1 s i st en)
  show ?case
  proof (cases "st < en")
    case True
    with 1 show ?thesis by (subst abs_tree.simps) simp
  next
    case False
    with 1 show ?thesis by (subst abs_tree.simps) simp
  qed
qed

lemma shaped_root_upd [simp]: "shaped (root_upd t v z) st en = shaped t st en"
  by (cases t) simp_all

lemma lval_root_upd: "lval (root_upd t (tv t) z') st en k = lval t st en k + z' - tz t"
  by (cases t) simp_all

lemma tinv_root_upd [simp]: "tinv (root_upd t (tv t) z') = tinv t"
  by (cases t) simp_all

lemma add_ll_Some: "add_ll a b = Some c \<Longrightarrow> c = a + b"
  by (simp add: add_ll_def split: if_splits)

lemma t_push_props:
  assumes "t_push t = Some t'"
  shows "tz t' = 0" "tv t' = tv t + tz t" "shaped t' st en = shaped t st en"
    "lval t' st en k = lval t st en k" "tinv t' = tinv t" "size t' = size t"
  using assms
  by (cases t; auto split: if_splits simp: bind_eq_Some_conv lval_root_upd
      dest!: add_ll_Some)+

lemma t_push_idem: "t_push t = Some t' \<Longrightarrow> t_push t' = Some t'"
  by (rule t_push_zero) (rule t_push_props)

lemma t_push_Node:
  assumes "t_push t = Some (Node v z a b)"
  shows "\<exists>v0 z0 a0 b0. t = Node v0 z0 a0 b0 \<and> size a = size a0 \<and> size b = size b0"
  using assms by (cases t) (auto split: if_splits simp: bind_eq_Some_conv)

lemma t_update_unfold:
  assumes "t_update t st en l r d = Some t'"
  obtains (out) t1 where "t_push t = Some t1" "en < st \<or> r < st \<or> en < l" "t' = t1"
  | (full) t1 z' where "t_push t = Some t1" "st \<le> en" "l \<le> st" "en \<le> r"
      "add_ll (tz t1) d = Some z'" "t_push (root_upd t1 (tv t1) z') = Some t'"
  | (part) v z a b a' b' where "t_push t = Some (Node v z a b)"
      "\<not> (en < st \<or> r < st \<or> en < l)" "\<not> (l \<le> st \<and> en \<le> r)"
      "t_update a st ((st + en) div 2) l r d = Some a'"
      "t_update b ((st + en) div 2 + 1) en l r d = Some b'"
      "t' = Node (min (tv a') (tv b')) z a' b'"
proof -
  from assms obtain t1 where p: "t_push t = Some t1"
    by (subst (asm) t_update.simps) (auto simp: bind_eq_Some_conv)
  show ?thesis
  proof (cases "en < st \<or> r < st \<or> en < l")
    case True
    with assms p have "t' = t1" by (subst (asm) t_update.simps) auto
    with p True show ?thesis by (rule out)
  next
    case no: False
    show ?thesis
    proof (cases "l \<le> st \<and> en \<le> r")
      case True
      with assms p no obtain z' where "add_ll (tz t1) d = Some z'"
        "t_push (root_upd t1 (tv t1) z') = Some t'"
        by (subst (asm) t_update.simps) (auto simp: bind_eq_Some_conv)
      with p no True show ?thesis by (intro full [of t1 z']) auto
    next
      case False
      with assms p no show ?thesis
        by (subst (asm) t_update.simps)
          (auto simp: bind_eq_Some_conv split: ltree.splits intro: part)
    qed
  qed
qed

lemma t_update_sem:
  "t_update t st en l r d = Some t' \<Longrightarrow> shaped t st en \<Longrightarrow>
   shaped t' st en \<and> tz t' = 0 \<and> (tinv t \<longrightarrow> tinv t') \<and>
   (\<forall>k. st \<le> k \<and> k \<le> en \<longrightarrow>
      lval t' st en k = lval t st en k + (if l \<le> k \<and> k \<le> r then d else 0))"
proof (induction t arbitrary: st en t' rule: measure_induct_rule [where f = size])
  case (less t)
  note sh = \<open>shaped t st en\<close>
  from less.prems(1) show ?case
  proof (cases rule: t_update_unfold)
    case (out t1)
    with sh shaped_le [OF sh] t_push_props [OF out(1)] show ?thesis by auto
  next
    case (full t1 z')
    note p1 = t_push_props [OF full(1)] and p2 = t_push_props [OF full(6)]
    have z': "z' = d" using add_ll_Some [OF full(5)] p1(1) by simp
    have "lval t' st en k = lval t st en k + d" for k
      unfolding p2(4) lval_root_upd p1(4) z' p1(1) by simp
    moreover have "shaped t' st en" unfolding p2(3) shaped_root_upd p1(3) by (rule sh)
    moreover have "tinv t' = tinv t" unfolding p2(5) tinv_root_upd p1(5) ..
    ultimately show ?thesis using p2(1) full(3,4) by auto
  next
    case (part v z a b a' b')
    let ?m = "(st + en) div 2"
    note p1 = t_push_props [OF part(1)]
    from t_push_Node [OF part(1)] have sz: "size a < size t" "size b < size t" by auto
    have sh1: "st < en" "shaped a st ?m" "shaped b (?m + 1) en"
      using sh p1(3) [of st en] by simp_all
    have z: "z = 0" using p1(1) by simp
    note A = less.IH [OF sz(1) part(4) sh1(2)] and B = less.IH [OF sz(2) part(5) sh1(3)]
    have lv: "lval t st en k = (if k \<le> ?m then lval a st ?m k else lval b (?m + 1) en k)" for k
      using p1(4) [of st en k] z by simp
    have ti: "tinv t \<Longrightarrow> tinv a \<and> tinv b" using p1(5) by simp
    show ?thesis
    proof (intro conjI allI impI)
      show "shaped t' st en" using A B sh1 part(6) by simp
      show "tz t' = 0" using part(6) z by simp
      show "tinv t'" if "tinv t" using A B ti [OF that] part(6) by simp
      fix k assume k: "st \<le> k \<and> k \<le> en"
      show "lval t' st en k = lval t st en k + (if l \<le> k \<and> k \<le> r then d else 0)"
      proof (cases "k \<le> ?m")
        case True
        with A k have "lval a' st ?m k = lval a st ?m k + (if l \<le> k \<and> k \<le> r then d else 0)"
          by blast
        with True show ?thesis by (simp add: part(6) lv z)
      next
        case False
        then have "?m + 1 \<le> k" by simp
        with B k have "lval b' (?m + 1) en k =
            lval b (?m + 1) en k + (if l \<le> k \<and> k \<le> r then d else 0)"
          by blast
        with False show ?thesis by (simp add: part(6) lv z)
      qed
    qed
  qed
qed

lemma tinv_bounds:
  "shaped t st en \<Longrightarrow> tinv t \<Longrightarrow>
   (\<forall>k. st \<le> k \<and> k \<le> en \<longrightarrow> tv t + tz t \<le> lval t st en k) \<and>
   (\<exists>k. st \<le> k \<and> k \<le> en \<and> tv t + tz t = lval t st en k)"
proof (induction t arbitrary: st en)
  case (Leaf v z)
  then show ?case by auto
next
  case (Node v z a b)
  let ?m = "(st + en) div 2"
  from Node.prems have sh: "st < en" "shaped a st ?m" "shaped b (?m + 1) en"
    and ti: "tinv a" "tinv b" and v: "v = min (tv a + tz a) (tv b + tz b)"
    by simp_all
  note A = Node.IH(1) [OF sh(2) ti(1)] and B = Node.IH(2) [OF sh(3) ti(2)]
  have m: "st \<le> ?m" "?m < en" using sh(1) by linarith+
  show ?case
  proof (intro conjI allI impI)
    fix k assume k: "st \<le> k \<and> k \<le> en"
    show "tv (Node v z a b) + tz (Node v z a b) \<le> lval (Node v z a b) st en k"
    proof (cases "k \<le> ?m")
      case True
      with A k have "tv a + tz a \<le> lval a st ?m k" by blast
      with True v show ?thesis by simp
    next
      case False
      then have "?m + 1 \<le> k" by simp
      with B k have "tv b + tz b \<le> lval b (?m + 1) en k" by blast
      with False v show ?thesis by simp
    qed
  next
    from A obtain ka where ka: "st \<le> ka" "ka \<le> ?m" "tv a + tz a = lval a st ?m ka" by blast
    from B obtain kb where kb: "?m + 1 \<le> kb" "kb \<le> en" "tv b + tz b = lval b (?m + 1) en kb"
      by blast
    show "\<exists>k. st \<le> k \<and> k \<le> en \<and>
        tv (Node v z a b) + tz (Node v z a b) = lval (Node v z a b) st en k"
    proof (cases "tv a + tz a \<le> tv b + tz b")
      case True
      with ka v m have "st \<le> ka \<and> ka \<le> en \<and>
          tv (Node v z a b) + tz (Node v z a b) = lval (Node v z a b) st en ka"
        by simp
      then show ?thesis ..
    next
      case False
      with kb v m have "st \<le> kb \<and> kb \<le> en \<and>
          tv (Node v z a b) + tz (Node v z a b) = lval (Node v z a b) st en kb"
        by simp
      then show ?thesis ..
    qed
  qed
qed

lemma t_query_unfold:
  assumes "t_query t st en l r = Some (x, t')"
  obtains (out) "t_push t = Some t'" "r < st \<or> en < l" "x = INF_ll"
  | (full) "t_push t = Some t'" "\<not> (r < st \<or> en < l)" "l \<le> st" "en \<le> r" "x = tv t'"
  | (part) v z a b xa a' xb b' where "t_push t = Some (Node v z a b)"
      "\<not> (r < st \<or> en < l)" "\<not> (l \<le> st \<and> en \<le> r)"
      "t_query a st ((st + en) div 2) l r = Some (xa, a')"
      "t_query b ((st + en) div 2 + 1) en l r = Some (xb, b')"
      "x = min xa xb" "t' = Node v z a' b'"
proof -
  from assms obtain t1 where p: "t_push t = Some t1"
    by (subst (asm) t_query.simps) (auto simp: bind_eq_Some_conv)
  show ?thesis
  proof (cases "r < st \<or> en < l")
    case True
    with assms p have "t' = t1" "x = INF_ll" by (subst (asm) t_query.simps; auto)+
    with p True show ?thesis by (intro out) auto
  next
    case no: False
    show ?thesis
    proof (cases "l \<le> st \<and> en \<le> r")
      case True
      with assms p no have "t' = t1" "x = tv t1" by (subst (asm) t_query.simps; auto)+
      with p no True show ?thesis by (intro full) auto
    next
      case False
      with assms p no show ?thesis
        by (subst (asm) t_query.simps)
          (auto simp: bind_eq_Some_conv split: ltree.splits intro: part)
    qed
  qed
qed

lemma t_query_sem:
  "t_query t st en l r = Some (x, t') \<Longrightarrow> shaped t st en \<Longrightarrow>
   shaped t' st en \<and> tz t' = 0 \<and> (tinv t \<longrightarrow> tinv t') \<and>
   (\<forall>k. lval t' st en k = lval t st en k) \<and>
   (l \<le> st \<and> en \<le> r \<longrightarrow> x = tv t + tz t) \<and>
   (r < l \<longrightarrow> x = INF_ll)"
proof (induction t arbitrary: st en t' x rule: measure_induct_rule [where f = size])
  case (less t)
  note sh = \<open>shaped t st en\<close>
  from less.prems(1) show ?case
  proof (cases rule: t_query_unfold)
    case out
    with sh shaped_le [OF sh] t_push_props [OF out(1)] show ?thesis by auto
  next
    case full
    note p = t_push_props [OF full(1)]
    have "\<not> r < l" using full shaped_le [OF sh] by linarith
    with sh p full show ?thesis by auto
  next
    case (part v z a b xa a' xb b')
    let ?m = "(st + en) div 2"
    note p1 = t_push_props [OF part(1)]
    from t_push_Node [OF part(1)] have sz: "size a < size t" "size b < size t" by auto
    have sh1: "st < en" "shaped a st ?m" "shaped b (?m + 1) en"
      using sh p1(3) [of st en] by simp_all
    have z: "z = 0" using p1(1) by simp
    note A = less.IH [OF sz(1) part(4) sh1(2)] and B = less.IH [OF sz(2) part(5) sh1(3)]
    have lv: "lval t st en k = (if k \<le> ?m then lval a st ?m k else lval b (?m + 1) en k)" for k
      using p1(4) [of st en k] z by simp
    have ti: "tinv t \<Longrightarrow> v = min (tv a + tz a) (tv b + tz b) \<and> tinv a \<and> tinv b"
      using p1(5) by simp
    have pa: "tv a' + tz a' = tv a + tz a" if "tinv a"
      using tinv_bounds [OF sh1(2) that] tinv_bounds [of a' st ?m] A that
      by (metis order.antisym)
    have pb: "tv b' + tz b' = tv b + tz b" if "tinv b"
      using tinv_bounds [OF sh1(3) that] tinv_bounds [of b' "?m + 1" en] B that
      by (metis order.antisym)
    show ?thesis
    proof (intro conjI allI impI)
      show "shaped t' st en" using A B sh1 part(7) by simp
      show "tz t' = 0" using part(7) z by simp
      show "tinv t'" if "tinv t" using A B ti [OF that] pa pb part(7) by simp
      show "lval t' st en k = lval t st en k" for k
        using A B by (simp add: part(7) lv z)
      show "x = tv t + tz t" if "l \<le> st \<and> en \<le> r" using that part(3) by simp
      show "x = INF_ll" if "r < l" using A B that part(6) by simp
    qed
  qed
qed

lemma t_query_val:
  "t_query t st en l r = Some (x, t') \<Longrightarrow> shaped t st en \<Longrightarrow> tinv t \<Longrightarrow>
   (\<forall>k. st \<le> k \<and> k \<le> en \<and> l \<le> k \<and> k \<le> r \<longrightarrow> lval t st en k \<le> INF_ll) \<Longrightarrow>
   x \<le> INF_ll \<and>
   (\<forall>k. st \<le> k \<and> k \<le> en \<and> l \<le> k \<and> k \<le> r \<longrightarrow> x \<le> lval t st en k) \<and>
   (x = INF_ll \<or> (\<exists>k. st \<le> k \<and> k \<le> en \<and> l \<le> k \<and> k \<le> r \<and> x = lval t st en k))"
proof (induction t arbitrary: st en t' x rule: measure_induct_rule [where f = size])
  case (less t)
  note sh = \<open>shaped t st en\<close> and ti = \<open>tinv t\<close>
  note le = less.prems(4)
  note tb = tinv_bounds [OF sh ti]
  from less.prems(1) show ?case
  proof (cases rule: t_query_unfold)
    case out
    then show ?thesis by auto
  next
    case full
    have x: "x = tv t + tz t" using full(5) t_push_props(2) [OF full(1)] by simp
    from tb obtain k0 where k0: "st \<le> k0" "k0 \<le> en" "x = lval t st en k0"
      unfolding x by blast
    with full(3,4) have k0': "st \<le> k0 \<and> k0 \<le> en \<and> l \<le> k0 \<and> k0 \<le> r \<and> x = lval t st en k0"
      by simp
    with le have "x \<le> INF_ll" by auto
    moreover have "\<forall>k. st \<le> k \<and> k \<le> en \<and> l \<le> k \<and> k \<le> r \<longrightarrow> x \<le> lval t st en k"
      using tb unfolding x by blast
    ultimately show ?thesis using k0' by blast
  next
    case (part v z a b xa a' xb b')
    let ?m = "(st + en) div 2"
    note p1 = t_push_props [OF part(1)]
    from t_push_Node [OF part(1)] have sz: "size a < size t" "size b < size t" by auto
    have sh1: "st < en" "shaped a st ?m" "shaped b (?m + 1) en"
      using sh p1(3) [of st en] by simp_all
    have m: "st \<le> ?m" "?m < en" using sh1(1) by linarith+
    have z: "z = 0" using p1(1) by simp
    have lv: "lval t st en k = (if k \<le> ?m then lval a st ?m k else lval b (?m + 1) en k)" for k
      using p1(4) [of st en k] z by simp
    have ti1: "tinv a" "tinv b" using p1(5) ti by simp_all
    have la: "\<forall>k. st \<le> k \<and> k \<le> ?m \<and> l \<le> k \<and> k \<le> r \<longrightarrow> lval a st ?m k \<le> INF_ll"
    proof (intro allI impI)
      fix k assume k: "st \<le> k \<and> k \<le> ?m \<and> l \<le> k \<and> k \<le> r"
      with m le have "lval t st en k \<le> INF_ll" by auto
      with k show "lval a st ?m k \<le> INF_ll" by (simp add: lv)
    qed
    have lb: "\<forall>k. ?m + 1 \<le> k \<and> k \<le> en \<and> l \<le> k \<and> k \<le> r \<longrightarrow>
        lval b (?m + 1) en k \<le> INF_ll"
    proof (intro allI impI)
      fix k assume k: "?m + 1 \<le> k \<and> k \<le> en \<and> l \<le> k \<and> k \<le> r"
      with m le have "lval t st en k \<le> INF_ll" by auto
      with k show "lval b (?m + 1) en k \<le> INF_ll" by (simp add: lv)
    qed
    note A = less.IH [OF sz(1) part(4) sh1(2) ti1(1) la]
      and B = less.IH [OF sz(2) part(5) sh1(3) ti1(2) lb]
    show ?thesis
    proof (intro conjI allI impI)
      have "xa \<le> INF_ll" using A by blast
      then show "x \<le> INF_ll" unfolding part(6) by (rule min.coboundedI1)
      fix k assume k: "st \<le> k \<and> k \<le> en \<and> l \<le> k \<and> k \<le> r"
      show "x \<le> lval t st en k"
      proof (cases "k \<le> ?m")
        case True
        with A k have "xa \<le> lval a st ?m k" by blast
        with True show ?thesis by (simp add: lv part(6))
      next
        case False
        then have "?m + 1 \<le> k" by simp
        with B k have "xb \<le> lval b (?m + 1) en k" by blast
        with False show ?thesis by (simp add: lv part(6))
      qed
    next
      have xa: "xa = INF_ll \<or> (\<exists>k. st \<le> k \<and> k \<le> en \<and> l \<le> k \<and> k \<le> r \<and> xa = lval t st en k)"
      proof -
        from A consider "xa = INF_ll"
          | k where "st \<le> k \<and> k \<le> ?m \<and> l \<le> k \<and> k \<le> r \<and> xa = lval a st ?m k" by blast
        then show ?thesis
        proof cases
          case 1 then show ?thesis ..
        next
          case 2
          with m have "st \<le> k \<and> k \<le> en \<and> l \<le> k \<and> k \<le> r \<and> xa = lval t st en k"
            by (simp add: lv)
          then show ?thesis by blast
        qed
      qed
      have xb: "xb = INF_ll \<or> (\<exists>k. st \<le> k \<and> k \<le> en \<and> l \<le> k \<and> k \<le> r \<and> xb = lval t st en k)"
      proof -
        from B consider "xb = INF_ll"
          | k where "?m + 1 \<le> k \<and> k \<le> en \<and> l \<le> k \<and> k \<le> r \<and> xb = lval b (?m + 1) en k"
          by blast
        then show ?thesis
        proof cases
          case 1 then show ?thesis ..
        next
          case 2
          with m have "st \<le> k \<and> k \<le> en \<and> l \<le> k \<and> k \<le> r \<and> xb = lval t st en k"
            by (simp add: lv)
          then show ?thesis by blast
        qed
      qed
      show "x = INF_ll \<or> (\<exists>k. st \<le> k \<and> k \<le> en \<and> l \<le> k \<and> k \<le> r \<and> x = lval t st en k)"
      proof (cases "xa \<le> xb")
        case True
        then have "x = xa" using part(6) by simp
        with xa show ?thesis by simp
      next
        case False
        then have "x = xb" using part(6) by simp
        with xb show ?thesis by simp
      qed
    qed
  qed
qed

lemma t_query_Min:
  assumes q: "t_query t st en l r = Some (x, t')" and sh: "shaped t st en" and ti: "tinv t"
    and r: "st \<le> l" "l \<le> r" "r \<le> en"
    and le: "\<forall>k. l \<le> k \<and> k \<le> r \<longrightarrow> lval t st en k \<le> INF_ll"
  shows "x = Min (lval t st en ` {l..r})"
proof -
  have le': "\<forall>k. st \<le> k \<and> k \<le> en \<and> l \<le> k \<and> k \<le> r \<longrightarrow> lval t st en k \<le> INF_ll"
    using le by blast
  note V = t_query_val [OF q sh ti le']
  have lb: "x \<le> y" if "y \<in> lval t st en ` {l..r}" for y
  proof -
    from that obtain k where "l \<le> k" "k \<le> r" "y = lval t st en k" by auto
    with V r show ?thesis by auto
  qed
  have "x \<in> lval t st en ` {l..r}"
  proof -
    from V consider "x = INF_ll" | k where "l \<le> k \<and> k \<le> r \<and> x = lval t st en k" by blast
    then show ?thesis
    proof cases
      case 1
      have "l \<in> {l..r}" using r by simp
      moreover have "lval t st en l \<le> x" using le r 1 by simp
      moreover have "x \<le> lval t st en l" using lb r by simp
      ultimately show ?thesis by (metis order.antisym image_eqI)
    next
      case 2
      then show ?thesis by auto
    qed
  qed
  with lb show ?thesis by (intro Min_eqI [symmetric]) auto
qed

lemma tinv_Min:
  assumes "shaped t st en" "tinv t"
  shows "tv t + tz t = Min (lval t st en ` {st..en})"
proof -
  note tb = tinv_bounds [OF assms]
  show ?thesis
  proof (rule Min_eqI [symmetric])
    show "finite (lval t st en ` {st..en})" by simp
    show "tv t + tz t \<le> y" if "y \<in> lval t st en ` {st..en}" for y
      using that tb by auto
    show "tv t + tz t \<in> lval t st en ` {st..en}" using tb by auto
  qed
qed

section \<open>Trees without pending deltas, and trees whose flushes cannot overflow\<close>

text \<open>
  \<open>tsafe acc t\<close>: with \<open>acc\<close> the sum of the pending deltas above \<open>t\<close>, every sum a
  top-down sequence of flushes computes in \<open>t\<close> lies in the signed 64-bit range.
\<close>

fun tclean :: "ltree \<Rightarrow> bool" where
  "tclean (Leaf v z) \<longleftrightarrow> z = 0"
| "tclean (Node v z a b) \<longleftrightarrow> z = 0 \<and> tclean a \<and> tclean b"

fun tsafe :: "int \<Rightarrow> ltree \<Rightarrow> bool" where
  "tsafe acc (Leaf v z) \<longleftrightarrow> in_ll (z + acc) \<and> in_ll (v + (z + acc))"
| "tsafe acc (Node v z a b) \<longleftrightarrow>
     in_ll (z + acc) \<and> in_ll (v + (z + acc)) \<and> tsafe (z + acc) a \<and> tsafe (z + acc) b"

lemma t_build_props:
  "st \<le> en \<Longrightarrow>
   shaped (t_build xs st en) st en \<and> tinv (t_build xs st en) \<and> tclean (t_build xs st en) \<and>
   (\<forall>k. st \<le> k \<and> k \<le> en \<longrightarrow> lval (t_build xs st en) st en k = xs ! k)"
proof (induction xs st en rule: t_build.induct)
  case (1 xs st en)
  show ?case
  proof (cases "st < en")
    case False
    with "1.prems" show ?thesis by (subst (1 2 3 4) t_build.simps) auto
  next
    case True
    let ?m = "(st + en) div 2"
    have m: "st \<le> ?m" "?m + 1 \<le> en" using True by linarith+
    note A = "1.IH"(1) [OF True m(1)] and B = "1.IH"(2) [OF True m(2)]
    have tzA: "tz (t_build xs st ?m) = 0" and tzB: "tz (t_build xs (?m + 1) en) = 0"
      by (subst t_build.simps, simp)+
    show ?thesis
    proof (intro conjI allI impI)
      show "shaped (t_build xs st en) st en"
        using True A B by (subst t_build.simps) simp
      show "tinv (t_build xs st en)"
        using True A B tzA tzB by (subst t_build.simps) simp
      show "tclean (t_build xs st en)"
        using True A B by (subst t_build.simps) simp
      fix k assume k: "st \<le> k \<and> k \<le> en"
      show "lval (t_build xs st en) st en k = xs ! k"
      proof (cases "k \<le> ?m")
        case le: True
        with A k have "lval (t_build xs st ?m) st ?m k = xs ! k" by blast
        with True le show ?thesis by (subst t_build.simps) simp
      next
        case gt: False
        then have "?m + 1 \<le> k" by simp
        with B k have "lval (t_build xs (?m + 1) en) (?m + 1) en k = xs ! k" by blast
        with True gt show ?thesis by (subst t_build.simps) simp
      qed
    qed
  qed
qed

lemma tclean_tz: "tclean t \<Longrightarrow> tz t = 0"
  by (cases t) simp_all

lemma tclean_push: "tclean t \<Longrightarrow> t_push t = Some t"
  by (rule t_push_zero) (rule tclean_tz)

lemma t_query_clean:
  "tclean t \<Longrightarrow> shaped t st en \<Longrightarrow> \<exists>x. t_query t st en l r = Some (x, t)"
proof (induction t arbitrary: st en)
  case (Leaf v z)
  then have "\<not> (r < st \<or> en < l) \<Longrightarrow> l \<le> st \<and> en \<le> r" by auto
  with Leaf show ?case by (subst t_query.simps) (auto simp: tclean_push)
next
  case (Node v z a b)
  let ?m = "(st + en) div 2"
  from Node.prems have c: "tclean a" "tclean b" and sh: "shaped a st ?m" "shaped b (?m + 1) en"
    by simp_all
  from Node.IH(1) [OF c(1) sh(1)] obtain xa where xa: "t_query a st ?m l r = Some (xa, a)"
    by blast
  from Node.IH(2) [OF c(2) sh(2)] obtain xb where xb: "t_query b (?m + 1) en l r = Some (xb, b)"
    by blast
  have z: "z = 0" using Node.prems(1) by simp
  show ?case
    using xa xb z by (subst t_query.simps) simp
qed

lemma tsafe_root_upd: "tsafe acc (root_upd t (tv t) (tz t + d)) = tsafe (acc + d) t"
  by (cases t) (simp_all add: ac_simps)

lemma tsafe_in_ll: "tsafe acc t \<Longrightarrow> in_ll (tz t + acc) \<and> in_ll (tv t + (tz t + acc))"
  by (cases t) simp_all

lemma in_ll_0 [simp]: "in_ll 0"
  by (simp add: in_ll_def)

lemma t_push_safe:
  assumes "tsafe 0 t"
  shows "\<exists>t'. t_push t = Some t' \<and> tsafe 0 t'"
proof (cases t)
  case (Leaf v z)
  with assms show ?thesis by (auto simp: add_ll_def)
next
  case (Node v z a b)
  with assms have s: "in_ll z" "in_ll (v + z)" "tsafe z a" "tsafe z b" by simp_all
  from tsafe_in_ll [OF s(3)] tsafe_in_ll [OF s(4)]
  have c: "in_ll (tz a + z)" "in_ll (tz b + z)" by simp_all
  show ?thesis
  proof (cases "z = 0")
    case True
    with Node assms show ?thesis by simp
  next
    case False
    have "tsafe 0 (root_upd a (tv a) (tz a + z))" "tsafe 0 (root_upd b (tv b) (tz b + z))"
      using s(3,4) by (simp_all add: tsafe_root_upd)
    with False Node s c show ?thesis by (simp add: add_ll_def)
  qed
qed

lemma t_query_safe:
  "tsafe 0 t \<Longrightarrow> shaped t st en \<Longrightarrow> \<exists>x t'. t_query t st en l r = Some (x, t') \<and> tsafe 0 t'"
proof (induction t arbitrary: st en rule: measure_induct_rule [where f = size])
  case (less t)
  from t_push_safe [OF less.prems(1)] obtain t1 where p: "t_push t = Some t1"
    and s1: "tsafe 0 t1" by blast
  note p1 = t_push_props [OF p]
  show ?case
  proof (cases "r < st \<or> en < l")
    case True
    with p s1 show ?thesis by (subst t_query.simps) auto
  next
    case no: False
    show ?thesis
    proof (cases "l \<le> st \<and> en \<le> r")
      case True
      with p s1 no show ?thesis by (subst t_query.simps) auto
    next
      case part: False
      have "st \<noteq> en" using no part by auto
      with less.prems(2) p1(3) [of st en] obtain v z a b where t1: "t1 = Node v z a b"
        by (cases t1) auto
      let ?m = "(st + en) div 2"
      from t_push_Node [OF p [unfolded t1]] have sz: "size a < size t" "size b < size t" by auto
      have sh: "shaped a st ?m" "shaped b (?m + 1) en"
        using less.prems(2) p1(3) [of st en] t1 by simp_all
      have z: "z = 0" using p1(1) t1 by simp
      have sa: "tsafe 0 a" "tsafe 0 b" "in_ll v" using s1 t1 z by simp_all
      from less.IH [OF sz(1) sa(1) sh(1)] obtain xa a' where
        qa: "t_query a st ?m l r = Some (xa, a')" and sa': "tsafe 0 a'" by blast
      from less.IH [OF sz(2) sa(2) sh(2)] obtain xb b' where
        qb: "t_query b (?m + 1) en l r = Some (xb, b')" and sb': "tsafe 0 b'" by blast
      have "t_query t st en l r = Some (min xa xb, Node v z a' b')"
        using qa qb by (subst t_query.simps) (simp add: p no part, simp add: t1)
      moreover have "tsafe 0 (Node v z a' b')" using sa' sb' sa(3) z by simp
      ultimately show ?thesis by blast
    qed
  qed
qed

section \<open>Construction\<close>

lemma rangeMin_sim:
  assumes "wfs s"
  shows "sim_q s 1 0 (n s - 1) (t_query (abs_tree s 1 0 (n s - 1)) 0 (n s - 1) l r)
    (rangeMin s l r)"
proof -
  have "0 < n s" using assms by (simp add: wfs_def)
  then have "rangeMin s l r = query s 0 (n s - 1) 1 l r" by (simp add: rangeMin_def)
  with query_sim [OF assms vnode_root [OF \<open>0 < n s\<close>]] show ?thesis by simp
qed

lemma updateRange_sim:
  assumes "wfs s"
  shows "sim s 1 0 (n s - 1) (t_update (abs_tree s 1 0 (n s - 1)) 0 (n s - 1) l r d)
    (updateRange s l r d)"
proof -
  have "0 < n s" using assms by (simp add: wfs_def)
  then have "updateRange s l r d = rangeUpdate s 1 0 (n s - 1) l r d"
    by (simp add: updateRange_def)
  with rangeUpdate_sim [OF assms vnode_root [OF \<open>0 < n s\<close>]] show ?thesis by simp
qed

lemma set_conv_nth_image: "xs \<noteq> [] \<Longrightarrow> (!) xs ` {0..length xs - 1} = set xs"
proof -
  assume "xs \<noteq> []"
  then have "{0..length xs - 1} = {0..<length xs}" by (cases xs) auto
  then show ?thesis using nth_image [of "length xs" xs] by simp
qed

lemma sim_qD_Some:
  "sim_q s i st en (Some (x, t)) os \<Longrightarrow>
   \<exists>s'. os = Some (x, s') \<and> abs_tree s' i st en = t \<and> frame (nodes i st en) s s'"
  by (simp add: sim_q_def)

text \<open>
  Claim C3 (build correctness). For every non-empty input array, the constructor
  returns a tree, and the range-minimum query over the full range \<open>[0, N - 1]\<close>
  issued immediately afterwards returns the minimum of the array.
\<close>

theorem build_then_full_query:
  assumes "arr \<noteq> []"
  shows "map_option fst (SegmentTree_init arr \<bind> (\<lambda>s. rangeMin s 0 (length arr - 1)))
    = Some (Min (set arr))"
proof -
  let ?e = "length arr - 1"
  from SegmentTree_init_sim [OF assms] obtain s where i: "SegmentTree_init arr = Some s"
    and w: "wfs s" and n: "n s = length arr"
    and a: "abs_tree s 1 0 ?e = t_build arr 0 ?e" by blast
  note tb = t_build_props [of 0 ?e arr, simplified]
  from tb have sh: "shaped (t_build arr 0 ?e) 0 ?e" and ti: "tinv (t_build arr 0 ?e)"
    and cl: "tclean (t_build arr 0 ?e)" by simp_all
  from t_query_clean [OF cl sh] obtain x where
    q: "t_query (t_build arr 0 ?e) 0 ?e 0 ?e = Some (x, t_build arr 0 ?e)" by blast
  have "x = tv (t_build arr 0 ?e) + tz (t_build arr 0 ?e)"
    using t_query_sem [OF q sh] by simp
  also have "\<dots> = Min (lval (t_build arr 0 ?e) 0 ?e ` {0..?e})"
    by (rule tinv_Min [OF sh ti])
  also have "lval (t_build arr 0 ?e) 0 ?e ` {0..?e} = (!) arr ` {0..?e}"
    using tb by (intro image_cong) auto
  also have "\<dots> = set arr" by (rule set_conv_nth_image [OF assms])
  finally have x: "x = Min (set arr)" .
  have "sim_q s 1 0 ?e (Some (x, t_build arr 0 ?e)) (rangeMin s 0 ?e)"
    using rangeMin_sim [OF w, of 0 ?e] unfolding n a q .
  from sim_qD_Some [OF this] obtain s' where "rangeMin s 0 ?e = Some (x, s')" by blast
  with i x show ?thesis by simp
qed

theorem build_then_full_query_witness:
  "[1, 3, 2, 4, 5, 6, 7, 8] \<noteq> ([] :: int list) \<and>
   map_option fst (SegmentTree_init [1, 3, 2, 4, 5, 6, 7, 8] \<bind> (\<lambda>s. rangeMin s 0 7)) = Some 1"
  using build_then_full_query [of "[1, 3, 2, 4, 5, 6, 7, 8]"] by (simp add: numeral_eq_Suc)

section \<open>Reachable states\<close>

definition good :: "SegmentTree \<Rightarrow> bool" where
  "good s \<longleftrightarrow> wfs s \<and> tinv (abs_tree s 1 0 (n s - 1))"

lemma frame_n: "frame S s s' \<Longrightarrow> n s' = n s"
  by (simp add: frame_def)

lemma updateRange_good:
  assumes g: "good s" and u: "updateRange s l r d = Some s'"
  shows "good s' \<and> n s' = n s \<and> ar s' = ar s"
proof -
  from g have w: "wfs s" and ti: "tinv (abs_tree s 1 0 (n s - 1))" by (simp_all add: good_def)
  have sh: "shaped (abs_tree s 1 0 (n s - 1)) 0 (n s - 1)" by (rule shaped_abs) simp
  show ?thesis
  proof (cases "t_update (abs_tree s 1 0 (n s - 1)) 0 (n s - 1) l r d")
    case None
    with updateRange_sim [OF w, of l r d] u show ?thesis by (simp add: sim_def)
  next
    case (Some t')
    with updateRange_sim [OF w, of l r d] u have a: "abs_tree s' 1 0 (n s - 1) = t'"
      and f: "frame (nodes 1 0 (n s - 1)) s s'" by (auto simp: sim_def)
    from t_update_sem [OF Some sh] ti have "tinv t'" by blast
    with a frame_wfs [OF f w] frame_n [OF f] f show ?thesis
      by (simp add: good_def frame_def)
  qed
qed

lemma rangeMin_good:
  assumes g: "good s" and q: "rangeMin s l r = Some (x, s')"
  shows "good s' \<and> n s' = n s \<and> ar s' = ar s"
proof -
  from g have w: "wfs s" and ti: "tinv (abs_tree s 1 0 (n s - 1))" by (simp_all add: good_def)
  have sh: "shaped (abs_tree s 1 0 (n s - 1)) 0 (n s - 1)" by (rule shaped_abs) simp
  show ?thesis
  proof (cases "t_query (abs_tree s 1 0 (n s - 1)) 0 (n s - 1) l r")
    case None
    with rangeMin_sim [OF w, of l r] q show ?thesis by (simp add: sim_q_def)
  next
    case (Some xt)
    obtain y t' where xt: "xt = (y, t')" by (cases xt)
    with Some rangeMin_sim [OF w, of l r] q have a: "abs_tree s' 1 0 (n s - 1) = t'"
      and f: "frame (nodes 1 0 (n s - 1)) s s'" by (auto simp: sim_q_def)
    from t_query_sem [OF Some [unfolded xt] sh] ti have "tinv t'" by blast
    with a frame_wfs [OF f w] frame_n [OF f] f show ?thesis
      by (simp add: good_def frame_def)
  qed
qed

lemma abs_tree_ar [simp]: "abs_tree (s\<lparr>ar := a\<rparr>) i st en = abs_tree s i st en"
  by (rule abs_tree_cong) simp

lemma pointUpdate_unfold:
  assumes "pointUpdate s pos val = Some s'"
  shows "\<exists>s1. pos < length (ar s) \<and> in_ll (val - ar s ! pos) \<and>
    updateRange s pos pos (val - ar s ! pos) = Some s1 \<and>
    pos < length (ar s1) \<and> s' = s1\<lparr>ar := (ar s1)[pos := val]\<rparr>"
  using assms
  by (auto simp: pointUpdate_def updateRange_def rd_def wr_def sub_ll_def bind_eq_Some_conv
      split: if_splits)

lemma pointUpdate_good:
  assumes g: "good s" and u: "pointUpdate s pos val = Some s'"
  shows "good s' \<and> n s' = n s"
proof -
  from pointUpdate_unfold [OF u] obtain s1 where
    u1: "updateRange s pos pos (val - ar s ! pos) = Some s1"
    and s': "s' = s1\<lparr>ar := (ar s1)[pos := val]\<rparr>" by blast
  from updateRange_good [OF g u1] have "good s1" "n s1 = n s" by simp_all
  then show ?thesis by (auto simp: s' good_def wfs_def)
qed

lemma apply_op_good: "good s \<Longrightarrow> apply_op s x = Some s' \<Longrightarrow> good s' \<and> n s' = n s"
proof (cases x)
  case (UpdateRange l r d)
  assume "good s" "apply_op s x = Some s'"
  with UpdateRange updateRange_good [of s l r d s'] show ?thesis by simp
next
  case (PointUpdate pos val)
  assume "good s" "apply_op s x = Some s'"
  with PointUpdate pointUpdate_good [of s pos val s'] show ?thesis by simp
next
  case (RangeMin l r)
  assume "good s" "apply_op s x = Some s'"
  with RangeMin rangeMin_good [of s l r _ s'] show ?thesis by auto
qed

lemma run_good: "good s \<Longrightarrow> run s ops = Some s' \<Longrightarrow> good s' \<and> n s' = n s"
proof (induction ops arbitrary: s)
  case Nil
  then show ?case by simp
next
  case (Cons x xs)
  from Cons.prems(2) obtain s1 where a: "apply_op s x = Some s1" and r: "run s1 xs = Some s'"
    by (auto simp: bind_eq_Some_conv)
  from apply_op_good [OF Cons.prems(1) a] Cons.IH [OF _ r] show ?case by simp
qed

lemma init_good:
  assumes "SegmentTree_init arr = Some s"
  shows "good s \<and> n s = length arr \<and> ar s = arr"
proof -
  have ne: "arr \<noteq> []" using assms by (auto simp: SegmentTree_init_def split: if_splits)
  from SegmentTree_init_sim [OF ne] assms have w: "wfs s" and n: "n s = length arr"
    and ar: "ar s = arr"
    and a: "abs_tree s 1 0 (length arr - 1) = t_build arr 0 (length arr - 1)" by auto
  from t_build_props [of 0 "length arr - 1" arr] have "tinv (t_build arr 0 (length arr - 1))"
    by simp
  with w n ar a show ?thesis by (simp add: good_def)
qed

lemma reachable_good:
  assumes "reachable arr ops s"
  shows "good s" "n s = length arr"
proof -
  from assms obtain s0 where i: "SegmentTree_init arr = Some s0" and r: "run s0 ops = Some s"
    by (auto simp: reachable_def bind_eq_Some_conv)
  from init_good [OF i] run_good [OF _ r] show "good s" "n s = length arr" by simp_all
qed

lemma reachable_wfs: "reachable arr ops s \<Longrightarrow> wfs s"
  using reachable_good(1) by (simp add: good_def)

function node_inv :: "SegmentTree \<Rightarrow> nat \<Rightarrow> nat \<Rightarrow> nat \<Rightarrow> bool" where
  "node_inv s i lo hi =
     (if lo < hi
      then 2 * i + 1 < length (segment_tree s) \<and> 2 * i + 1 < length (lazy s) \<and>
           (lazy s ! i = 0 \<longrightarrow>
              segment_tree s ! i =
                min (segment_tree s ! (2 * i) + lazy s ! (2 * i))
                    (segment_tree s ! (2 * i + 1) + lazy s ! (2 * i + 1))) \<and>
           node_inv s (2 * i) lo ((lo + hi) div 2) \<and>
           node_inv s (2 * i + 1) ((lo + hi) div 2 + 1) hi
      else i < length (segment_tree s) \<and> i < length (lazy s))"
  by pat_completeness auto
termination
  by (relation "measure (\<lambda>(s, i, lo, hi). hi - lo)") auto

declare node_inv.simps [simp del]

lemma tinv_node_inv:
  "wfs s \<Longrightarrow> vnode (n s) i lo hi \<Longrightarrow> tinv (abs_tree s i lo hi) \<Longrightarrow> node_inv s i lo hi"
proof (induction s i lo hi rule: abs_tree.induct)
  case (1 s i lo hi)
  note w = "1.prems"(1) and v = "1.prems"(2)
  show ?case
  proof (cases "lo < hi")
    case False
    with wfs_bounds [OF w v] show ?thesis by (subst node_inv.simps) simp
  next
    case True
    let ?m = "(lo + hi) div 2"
    from "1.prems"(3) True have
      v': "segment_tree s ! i = min (segment_tree s ! (2 * i) + lazy s ! (2 * i))
          (segment_tree s ! (2 * i + 1) + lazy s ! (2 * i + 1))"
      and a: "tinv (abs_tree s (2 * i) lo ?m)"
      and b: "tinv (abs_tree s (2 * i + 1) (?m + 1) hi)"
      by (subst (asm) abs_tree.simps, simp)+
    from "1.IH"(1) [OF True w vnode_left [OF v True] a]
      "1.IH"(2) [OF True w vnode_right [OF v True] b] v' True
      wfs_child_bounds [OF w v True]
    show ?thesis by (subst node_inv.simps) simp
  qed
qed

text \<open>
  Claim C6 (internal-node invariant). In every state reached from the constructor by
  in-range range updates, point updates and queries, every node of the tree lies inside
  both arrays, and every internal node \<open>i\<close> with range \<open>[lo, hi]\<close>, \<open>lo < hi\<close>, whose
  own pending delta is zero stores the minimum of its two children's settled values, a
  child's settled value being its stored value plus its pending delta.
\<close>

theorem internal_node_invariant:
  assumes "reachable arr ops s"
  shows "node_inv s 1 0 (n s - 1)"
proof -
  from reachable_good(1) [OF assms] have w: "wfs s" and t: "tinv (abs_tree s 1 0 (n s - 1))"
    by (simp_all add: good_def)
  from w have "0 < n s" by (simp add: wfs_def)
  from tinv_node_inv [OF w vnode_root [OF this] t] show ?thesis .
qed

theorem internal_node_invariant_witness:
  "reachable [1, 3, 2] [UpdateRange 0 1 5, RangeMin 0 0, PointUpdate 2 7]
     (the (SegmentTree_init [1, 3, 2] \<bind>
        (\<lambda>s0. run s0 [UpdateRange 0 1 5, RangeMin 0 0, PointUpdate 2 7]))) \<and>
   node_inv (the (SegmentTree_init [1, 3, 2] \<bind>
        (\<lambda>s0. run s0 [UpdateRange 0 1 5, RangeMin 0 0, PointUpdate 2 7]))) 1 0
     (n (the (SegmentTree_init [1, 3, 2] \<bind>
        (\<lambda>s0. run s0 [UpdateRange 0 1 5, RangeMin 0 0, PointUpdate 2 7]))) - 1)"
proof -
  have r: "reachable [1, 3, 2] [UpdateRange 0 1 5, RangeMin 0 0, PointUpdate 2 7]
     (the (SegmentTree_init [1, 3, 2] \<bind>
        (\<lambda>s0. run s0 [UpdateRange 0 1 5, RangeMin 0 0, PointUpdate 2 7])))"
    by code_simp
  from r internal_node_invariant [OF r] show ?thesis by (rule conjI)
qed

lemma push_ar: "push s i st en = Some s' \<Longrightarrow> ar s' = ar s \<and> n s' = n s"
  by (auto simp: push_def rd_def wr_def bind_eq_Some_conv split: if_splits)

lemma rangeUpdate_ar:
  "rangeUpdate s i st en l r d = Some s' \<Longrightarrow> ar s' = ar s \<and> n s' = n s"
proof (induction s i st en l r d arbitrary: s' rule: rangeUpdate.induct)
  case (1 s i st en l r d)
  from "1.prems" obtain s1 where p: "push s i st en = Some s1"
    by (subst (asm) rangeUpdate.simps) (auto simp: bind_eq_Some_conv)
  note a1 = push_ar [OF p]
  show ?case
  proof (cases "en < st \<or> r < st \<or> en < l")
    case True
    with "1.prems" p a1 show ?thesis by (subst (asm) rangeUpdate.simps) auto
  next
    case no: False
    show ?thesis
    proof (cases "l \<le> st \<and> en \<le> r")
      case True
      with "1.prems" p no obtain lz where "push (s1\<lparr>lazy := lz\<rparr>) i st en = Some s'"
        by (subst (asm) rangeUpdate.simps) (auto simp: bind_eq_Some_conv)
      from push_ar [OF this] a1 show ?thesis by simp
    next
      case part: False
      let ?m = "(st + en) div 2"
      from "1.prems" obtain s2 s3 t where
        r2: "rangeUpdate s1 (2 * i) st ?m l r d = Some s2"
        and r3: "rangeUpdate s2 (2 * i + 1) (?m + 1) en l r d = Some s3"
        and s': "s' = s3\<lparr>segment_tree := t\<rparr>"
        by (subst (asm) rangeUpdate.simps)
          (auto simp: p no part Let_def bind_eq_Some_conv)
      from "1.IH"(1) [OF p no part refl r2] "1.IH"(2) [OF p no part refl r2 r3] a1 s'
      show ?thesis by simp
    qed
  qed
qed

lemma query_ar:
  "query s st en i l r = Some (x, s') \<Longrightarrow> ar s' = ar s \<and> n s' = n s"
proof (induction s st en i l r arbitrary: x s' rule: query.induct)
  case (1 s st en i l r)
  from "1.prems" obtain s1 where p: "push s i st en = Some s1"
    by (subst (asm) query.simps) (auto simp: bind_eq_Some_conv)
  note a1 = push_ar [OF p]
  show ?case
  proof (cases "r < st \<or> en < l")
    case True
    with "1.prems" p a1 show ?thesis by (subst (asm) query.simps) auto
  next
    case no: False
    show ?thesis
    proof (cases "l \<le> st \<and> en \<le> r")
      case True
      with "1.prems" p no a1 show ?thesis
        by (subst (asm) query.simps) (auto simp: bind_eq_Some_conv)
    next
      case part: False
      let ?m = "(st + en) div 2"
      from "1.prems" obtain xa s2 xb where
        r2: "query s1 st ?m (2 * i) l r = Some (xa, s2)"
        and r3: "query s2 (?m + 1) en (2 * i + 1) l r = Some (xb, s')"
        by (subst (asm) query.simps)
          (auto simp: p no part Let_def bind_eq_Some_conv)
      from "1.IH"(1) [OF p no part refl r2] "1.IH"(2) [OF p no part refl r2 refl r3] a1
      show ?thesis by simp
    qed
  qed
qed

text \<open>
  Claim C10 (frame of the base array). A call of \<open>updateRange\<close> that returns leaves the
  member array \<open>ar\<close> (and \<open>n\<close>) unchanged, and so does a query; \<open>ar\<close> is set by the
  constructor to the input array and changed only by \<open>pointUpdate\<close>, which performs
  the range update of the single position with the delta \<open>val - ar[pos]\<close> and then
  writes \<open>ar[pos] = val\<close>.
\<close>

theorem base_array_frame:
  "(\<forall>s'. updateRange s l r val = Some s' \<longrightarrow> ar s' = ar s \<and> n s' = n s) \<and>
   (\<forall>x s'. rangeMin s l r = Some (x, s') \<longrightarrow> ar s' = ar s \<and> n s' = n s) \<and>
   (\<forall>s'. pointUpdate s pos val = Some s' \<longrightarrow>
      (\<exists>s1. updateRange s pos pos (val - ar s ! pos) = Some s1 \<and>
            s' = s1\<lparr>ar := (ar s)[pos := val]\<rparr>)) \<and>
   (\<forall>s0. SegmentTree_init arr = Some s0 \<longrightarrow> ar s0 = arr)"
proof (intro conjI allI impI)
  fix s' assume "updateRange s l r val = Some s'"
  then show "ar s' = ar s" "n s' = n s"
    using rangeUpdate_ar by (auto simp: updateRange_def split: if_splits)
next
  fix x s' assume "rangeMin s l r = Some (x, s')"
  then show "ar s' = ar s" "n s' = n s"
    using query_ar by (auto simp: rangeMin_def split: if_splits)
next
  fix s' assume "pointUpdate s pos val = Some s'"
  from pointUpdate_unfold [OF this] obtain s1 where
    u: "updateRange s pos pos (val - ar s ! pos) = Some s1"
    and s': "s' = s1\<lparr>ar := (ar s1)[pos := val]\<rparr>" by blast
  have "ar s1 = ar s" using u rangeUpdate_ar by (auto simp: updateRange_def split: if_splits)
  with u s' show "\<exists>s1. updateRange s pos pos (val - ar s ! pos) = Some s1 \<and>
            s' = s1\<lparr>ar := (ar s)[pos := val]\<rparr>" by simp
next
  fix s0 assume "SegmentTree_init arr = Some s0"
  from init_good [OF this] show "ar s0 = arr" by simp
qed

theorem base_array_frame_witness:
  "(\<exists>s'. updateRange (the (SegmentTree_init [1, 3, 2])) 0 1 5 = Some s' \<and>
      ar s' = ar (the (SegmentTree_init [1, 3, 2]))) \<and>
   (\<exists>x s'. rangeMin (the (SegmentTree_init [1, 3, 2])) 0 1 = Some (x, s') \<and>
      ar s' = ar (the (SegmentTree_init [1, 3, 2]))) \<and>
   (\<exists>s' s1. pointUpdate (the (SegmentTree_init [1, 3, 2])) 2 7 = Some s' \<and>
      updateRange (the (SegmentTree_init [1, 3, 2])) 2 2 5 = Some s1 \<and>
      s' = s1\<lparr>ar := [1, 3, 7]\<rparr>) \<and>
   ar (the (SegmentTree_init [1, 3, 2])) = [1, 3, 2]"
proof -
  let ?S = "the (SegmentTree_init [1, 3, 2])"
  note F = base_array_frame [of ?S 0 1 5 2 "[1, 3, 2]"]
  have i: "SegmentTree_init [1, 3, 2] = Some ?S" by code_simp
  with F have a: "ar ?S = [1, 3, 2]" by blast
  have "updateRange ?S 0 1 5 \<noteq> None" by code_simp
  then obtain s' where u: "updateRange ?S 0 1 5 = Some s'" by blast
  with F have 1: "\<exists>s'. updateRange ?S 0 1 5 = Some s' \<and> ar s' = ar ?S" by blast
  have "rangeMin ?S 0 1 \<noteq> None" by code_simp
  then obtain x s'' where "rangeMin ?S 0 1 = Some (x, s'')" by auto
  with F have 2: "\<exists>x s'. rangeMin ?S 0 1 = Some (x, s') \<and> ar s' = ar ?S" by blast
  note G = base_array_frame [of ?S 0 1 7 2 "[1, 3, 2]"]
  have "pointUpdate ?S 2 7 \<noteq> None" by code_simp
  then obtain p where p: "pointUpdate ?S 2 7 = Some p" by blast
  with G obtain s1 where "updateRange ?S 2 2 (7 - ar ?S ! 2) = Some s1"
    "p = s1\<lparr>ar := (ar ?S)[2 := 7]\<rparr>" by blast
  with p a have 3: "\<exists>s' s1. pointUpdate ?S 2 7 = Some s' \<and>
      updateRange ?S 2 2 5 = Some s1 \<and> s' = s1\<lparr>ar := [1, 3, 7]\<rparr>" by simp
  from 1 2 3 a show ?thesis by blast
qed

section \<open>Queries only flush\<close>

text \<open>
  \<open>pushed t t'\<close>: \<open>t'\<close> is \<open>t\<close> after flushing an upward-closed set of its nodes. A
  query takes \<open>t\<close> to such a \<open>t'\<close>, and the two trees answer every query alike.
\<close>

inductive pushed :: "ltree \<Rightarrow> ltree \<Rightarrow> bool" where
  p_refl: "pushed t t"
| p_leaf: "t_push t = Some (Leaf v z) \<Longrightarrow> pushed t (Leaf v z)"
| p_node: "t_push t = Some (Node v z a b) \<Longrightarrow> pushed a a' \<Longrightarrow> pushed b b' \<Longrightarrow>
    pushed t (Node v z a' b')"

lemma pushed_push: "t_push t = Some t' \<Longrightarrow> pushed t t'"
  by (cases t') (auto intro: pushed.intros)

lemma t_query_pushed: "t_query t st en l r = Some (x, t') \<Longrightarrow> pushed t t'"
proof (induction t arbitrary: st en t' x rule: measure_induct_rule [where f = size])
  case (less t)
  from less.prems show ?case
  proof (cases rule: t_query_unfold)
    case out
    then show ?thesis by (intro pushed_push)
  next
    case full
    then show ?thesis by (intro pushed_push)
  next
    case (part v z a b xa a' xb b')
    from t_push_Node [OF part(1)] have sz: "size a < size t" "size b < size t" by auto
    from less.IH [OF sz(1) part(4)] less.IH [OF sz(2) part(5)] part(1,7)
    show ?thesis by (auto intro: p_node)
  qed
qed

lemma t_query_push:
  assumes "t_push t = Some t1"
  shows "t_query t st en l r = t_query t1 st en l r"
  by (subst (1 2) t_query.simps) (simp add: assms t_push_idem [OF assms])

lemma t_query_Node0:
  "t_query (Node v 0 a b) st en l r =
     (if r < st \<or> en < l then Some (INF_ll, Node v 0 a b)
      else if l \<le> st \<and> en \<le> r then Some (v, Node v 0 a b)
      else do {
        (x, a') \<leftarrow> t_query a st ((st + en) div 2) l r;
        (y, b') \<leftarrow> t_query b ((st + en) div 2 + 1) en l r;
        Some (min x y, Node v 0 a' b')
      })"
  by (subst t_query.simps) simp

lemma map_fst_bind2:
  "map_option fst (do { (x, a') \<leftarrow> A; (y, b') \<leftarrow> B; Some (f x y, g a' b') }) =
   do { x \<leftarrow> map_option fst A; y \<leftarrow> map_option fst B; Some (f x y) }"
  by (cases A; cases B) auto

lemma pushed_query:
  "pushed t t' \<Longrightarrow>
   map_option fst (t_query t' st en l r) = map_option fst (t_query t st en l r)"
proof (induction arbitrary: st en rule: pushed.induct)
  case (p_refl t)
  show ?case ..
next
  case (p_leaf t v z)
  then show ?case by (simp add: t_query_push)
next
  case (p_node t v z a b a' b')
  have z: "z = 0" using t_push_props(1) [OF p_node.hyps(1)] by simp
  have "map_option fst (t_query (Node v 0 a' b') st en l r) =
      map_option fst (t_query (Node v 0 a b) st en l r)"
    unfolding t_query_Node0 by (simp add: map_fst_bind2 p_node.IH)
  then show ?case by (simp add: t_query_push [OF p_node.hyps(1)] z)
qed

lemma rangeMin_fst:
  assumes "wfs s"
  shows "map_option fst (rangeMin s l r) =
    map_option fst (t_query (abs_tree s 1 0 (n s - 1)) 0 (n s - 1) l r)"
  using rangeMin_sim [OF assms, of l r] by (auto simp: sim_q_def split: option.splits)

lemma rangeMin_step:
  assumes w: "wfs s" and q: "rangeMin s l r = Some (x, s1)"
  shows "wfs s1" "n s1 = n s"
    "map_option fst (rangeMin s1 l' r') = map_option fst (rangeMin s l' r')"
proof -
  let ?t = "abs_tree s 1 0 (n s - 1)"
  from rangeMin_sim [OF w, of l r] q obtain t' where
    tq: "t_query ?t 0 (n s - 1) l r = Some (x, t')"
    and a: "abs_tree s1 1 0 (n s - 1) = t'" and f: "frame (nodes 1 0 (n s - 1)) s s1"
    by (auto simp: sim_q_def split: option.splits)
  show w1: "wfs s1" by (rule frame_wfs [OF f w])
  show n1: "n s1 = n s" by (rule frame_n [OF f])
  have "pushed ?t (abs_tree s1 1 0 (n s1 - 1))"
    using t_query_pushed [OF tq] a n1 by simp
  from pushed_query [OF this] show
    "map_option fst (rangeMin s1 l' r') = map_option fst (rangeMin s l' r')"
    by (simp add: rangeMin_fst [OF w] rangeMin_fst [OF w1] n1)
qed

section \<open>Query answers are a function of the logical array\<close>

lemma Min_insert_Un:
  assumes "finite A" "finite B"
  shows "min (Min (insert (c::int) A)) (Min (insert c B)) = Min (insert c (A \<union> B))"
proof -
  have "Min (insert c A \<union> insert c B) = min (Min (insert c A)) (Min (insert c B))"
    using assms by (intro Min_Un) auto
  moreover have "insert c A \<union> insert c B = insert c (A \<union> B)" by auto
  ultimately show ?thesis by simp
qed

lemma Min_Un_insert:
  assumes "finite A" "A \<noteq> {}" "finite B"
  shows "min (Min A) (Min (insert (c::int) B)) = Min (insert c (A \<union> B))"
proof -
  have "Min (A \<union> insert c B) = min (Min A) (Min (insert c B))"
    using assms by (intro Min_Un) auto
  moreover have "A \<union> insert c B = insert c (A \<union> B)" by auto
  ultimately show ?thesis by simp
qed

lemma t_query_exact:
  "t_query t st en l r = Some (x, t') \<Longrightarrow> shaped t st en \<Longrightarrow> tinv t \<Longrightarrow>
   x = (if l \<le> st \<and> en \<le> r then Min (lval t st en ` {st..en})
        else Min (insert INF_ll (lval t st en ` ({st..en} \<inter> {l..r}))))"
proof (induction t arbitrary: st en t' x rule: measure_induct_rule [where f = size])
  case (less t)
  note sh = \<open>shaped t st en\<close> and ti = \<open>tinv t\<close>
  have se: "st \<le> en" by (rule shaped_le [OF sh])
  from less.prems(1) show ?case
  proof (cases rule: t_query_unfold)
    case out
    then have e: "{st..en} \<inter> {l..r} = {}" by auto
    have nf: "\<not> (l \<le> st \<and> en \<le> r)" using out(2) se by linarith
    show ?thesis unfolding out(3) e by (simp add: nf)
  next
    case full
    have "x = tv t + tz t" using full(5) t_push_props(2) [OF full(1)] by simp
    with tinv_Min [OF sh ti] show ?thesis by (simp add: full(3,4))
  next
    case (part v z a b xa a' xb b')
    let ?m = "(st + en) div 2"
    note p1 = t_push_props [OF part(1)]
    from t_push_Node [OF part(1)] have sz: "size a < size t" "size b < size t" by auto
    have sh1: "st < en" "shaped a st ?m" "shaped b (?m + 1) en"
      using sh p1(3) [of st en] by simp_all
    have m: "st \<le> ?m" "?m < en" using sh1(1) by linarith+
    have z: "z = 0" using p1(1) by simp
    have lv: "lval t st en k = (if k \<le> ?m then lval a st ?m k else lval b (?m + 1) en k)" for k
      using p1(4) [of st en k] z by simp
    have ti1: "tinv a" "tinv b" using p1(5) ti by simp_all
    note A = less.IH [OF sz(1) part(4) sh1(2) ti1(1)]
      and B = less.IH [OF sz(2) part(5) sh1(3) ti1(2)]
    let ?L = "lval t st en"
    have ia: "lval a st ?m ` S = ?L ` S" if "S \<subseteq> {st..?m}" for S
      using that by (intro image_cong) (auto simp: lv)
    have ib: "lval b (?m + 1) en ` S = ?L ` S" if "S \<subseteq> {?m + 1..en}" for S
      using that by (intro image_cong) (auto simp: lv)
    have split: "{st..en} \<inter> {l..r} = ({st..?m} \<inter> {l..r}) \<union> ({?m + 1..en} \<inter> {l..r})"
      using m by auto
    have xa: "xa = (if l \<le> st \<and> ?m \<le> r then Min (?L ` {st..?m})
        else Min (insert INF_ll (?L ` ({st..?m} \<inter> {l..r}))))"
      using A ia [of "{st..?m}"] ia [of "{st..?m} \<inter> {l..r}"] by (simp only: Int_lower1 order_refl)
    have xb: "xb = (if l \<le> ?m + 1 \<and> en \<le> r then Min (?L ` {?m + 1..en})
        else Min (insert INF_ll (?L ` ({?m + 1..en} \<inter> {l..r}))))"
      using B ib [of "{?m + 1..en}"] ib [of "{?m + 1..en} \<inter> {l..r}"]
      by (simp only: Int_lower1 order_refl)
    have nf: "\<not> (l \<le> st \<and> en \<le> r)" by (rule part(3))
    have "min xa xb = Min (insert INF_ll (?L ` ({st..en} \<inter> {l..r})))"
    proof (cases "l \<le> st \<and> ?m \<le> r")
      case fa: True
      then have sa: "{st..?m} \<inter> {l..r} = {st..?m}" by auto
      from fa nf m have nb: "\<not> (l \<le> ?m + 1 \<and> en \<le> r)" by linarith
      have "min xa xb = Min (insert INF_ll (?L ` {st..?m} \<union> ?L ` ({?m + 1..en} \<inter> {l..r})))"
        unfolding xa xb if_P [OF fa] if_not_P [OF nb] using m by (intro Min_Un_insert) auto
      then show ?thesis unfolding split image_Un sa .
    next
      case na: False
      show ?thesis
      proof (cases "l \<le> ?m + 1 \<and> en \<le> r")
        case fb: True
        then have sb: "{?m + 1..en} \<inter> {l..r} = {?m + 1..en}" by auto
        have "min xb xa = Min (insert INF_ll (?L ` {?m + 1..en} \<union> ?L ` ({st..?m} \<inter> {l..r})))"
          unfolding xa xb if_P [OF fb] if_not_P [OF na] using m by (intro Min_Un_insert) auto
        then show ?thesis unfolding split image_Un sb by (simp only: min.commute Un_commute)
      next
        case nb: False
        have "min xa xb = Min (insert INF_ll
            (?L ` ({st..?m} \<inter> {l..r}) \<union> ?L ` ({?m + 1..en} \<inter> {l..r})))"
          unfolding xa xb if_not_P [OF na] if_not_P [OF nb] by (intro Min_insert_Un) auto
        then show ?thesis unfolding split image_Un .
      qed
    qed
    then show ?thesis unfolding part(6) if_not_P [OF nf] .
  qed
qed

definition logical :: "SegmentTree \<Rightarrow> nat \<Rightarrow> int" where
  "logical s k = lval (abs_tree s 1 0 (n s - 1)) 0 (n s - 1) k"

definition answer :: "(nat \<Rightarrow> int) \<Rightarrow> nat \<Rightarrow> nat \<Rightarrow> nat \<Rightarrow> int" where
  "answer L N l r =
     (if l \<le> 0 \<and> N - 1 \<le> r then Min (L ` {0..N - 1})
      else Min (insert INF_ll (L ` ({0..N - 1} \<inter> {l..r}))))"

lemma answer_cong: "(\<And>k. k < N \<Longrightarrow> L k = L' k) \<Longrightarrow> 0 < N \<Longrightarrow> answer L N l r = answer L' N l r"
proof -
  assume a: "\<And>k. k < N \<Longrightarrow> L k = L' k" and N: "0 < N"
  have "L ` S = L' ` S" if "S \<subseteq> {0..N - 1}" for S
    using that a N by (intro image_cong) auto
  then show ?thesis by (simp add: answer_def)
qed

definition equiv :: "SegmentTree \<Rightarrow> SegmentTree \<Rightarrow> bool" where
  "equiv s s' \<longleftrightarrow>
     good s \<and> good s' \<and> n s = n s' \<and> ar s = ar s' \<and> (\<forall>k<n s. logical s k = logical s' k)"

lemma rangeMin_logical:
  assumes g: "good s" and q: "rangeMin s l r = Some (x, s')"
  shows "x = answer (logical s) (n s) l r" "logical s' = logical s"
proof -
  from g have w: "wfs s" and ti: "tinv (abs_tree s 1 0 (n s - 1))" by (simp_all add: good_def)
  have sh: "shaped (abs_tree s 1 0 (n s - 1)) 0 (n s - 1)" by (rule shaped_abs) simp
  from rangeMin_sim [OF w, of l r] q obtain t' where
    tq: "t_query (abs_tree s 1 0 (n s - 1)) 0 (n s - 1) l r = Some (x, t')"
    and a: "abs_tree s' 1 0 (n s - 1) = t'" and f: "frame (nodes 1 0 (n s - 1)) s s'"
    by (auto simp: sim_q_def split: option.splits)
  from t_query_exact [OF tq sh ti] show "x = answer (logical s) (n s) l r"
    by (simp add: answer_def logical_def)
  from t_query_sem [OF tq sh] a frame_n [OF f] show "logical s' = logical s"
    by (auto simp: logical_def fun_eq_iff)
qed

lemma updateRange_logical:
  assumes g: "good s" and u: "updateRange s l r d = Some s'" and k: "k < n s"
  shows "logical s' k = logical s k + (if l \<le> k \<and> k \<le> r then d else 0)"
proof -
  from g have w: "wfs s" by (simp add: good_def)
  have sh: "shaped (abs_tree s 1 0 (n s - 1)) 0 (n s - 1)" by (rule shaped_abs) simp
  from updateRange_sim [OF w, of l r d] u obtain t' where
    tu: "t_update (abs_tree s 1 0 (n s - 1)) 0 (n s - 1) l r d = Some t'"
    and a: "abs_tree s' 1 0 (n s - 1) = t'" and f: "frame (nodes 1 0 (n s - 1)) s s'"
    by (auto simp: sim_def split: option.splits)
  from k have "0 \<le> k \<and> k \<le> n s - 1" by simp
  with t_update_sem [OF tu sh] a frame_n [OF f] show ?thesis
    by (simp add: logical_def)
qed

lemma equiv_rangeMin:
  assumes e: "equiv s t" and a: "rangeMin s l r = Some (x, s')"
    and b: "rangeMin t l r = Some (y, t')"
  shows "x = y \<and> equiv s' t'"
proof -
  from e have g: "good s" "good t" and n: "n s = n t" and ar: "ar s = ar t"
    and L: "\<And>k. k < n s \<Longrightarrow> logical s k = logical t k" by (simp_all add: equiv_def)
  have N: "0 < n s" using g(1) by (simp add: good_def wfs_def)
  note ra = rangeMin_logical [OF g(1) a] and rb = rangeMin_logical [OF g(2) b]
  note ga = rangeMin_good [OF g(1) a] and gb = rangeMin_good [OF g(2) b]
  have "x = y" unfolding ra(1) rb(1) n [symmetric] by (rule answer_cong [OF L N])
  moreover have "equiv s' t'" using ga gb n ar L ra(2) rb(2) by (simp add: equiv_def)
  ultimately show ?thesis ..
qed

lemma equiv_updateRange:
  assumes e: "equiv s t" and a: "updateRange s l r d = Some s'"
    and b: "updateRange t l r d = Some t'"
  shows "equiv s' t'"
proof -
  from e have g: "good s" "good t" and n: "n s = n t" and ar: "ar s = ar t"
    and L: "\<And>k. k < n s \<Longrightarrow> logical s k = logical t k" by (simp_all add: equiv_def)
  note ga = updateRange_good [OF g(1) a] and gb = updateRange_good [OF g(2) b]
  have "logical s' k = logical t' k" if "k < n s" for k
    using updateRange_logical [OF g(1) a that] updateRange_logical [OF g(2) b, of k]
      that n L [OF that] by simp
  with ga gb n ar show ?thesis by (simp add: equiv_def)
qed

lemma equiv_pointUpdate:
  assumes e: "equiv s t" and a: "pointUpdate s pos val = Some s'"
    and b: "pointUpdate t pos val = Some t'"
  shows "equiv s' t'"
proof -
  from e have ar: "ar s = ar t" by (simp add: equiv_def)
  from pointUpdate_unfold [OF a] obtain s1 where
    u1: "updateRange s pos pos (val - ar s ! pos) = Some s1"
    and s': "s' = s1\<lparr>ar := (ar s1)[pos := val]\<rparr>" by blast
  from pointUpdate_unfold [OF b] obtain t1 where
    u2: "updateRange t pos pos (val - ar s ! pos) = Some t1"
    and t': "t' = t1\<lparr>ar := (ar t1)[pos := val]\<rparr>" unfolding ar by blast
  from equiv_updateRange [OF e u1 u2] show ?thesis
    by (auto simp: equiv_def good_def wfs_def logical_def s' t')
qed

lemma equiv_step:
  assumes e: "equiv s t" and a: "step s x = Some (xs, s')" and b: "step t x = Some (ys, t')"
  shows "xs = ys \<and> equiv s' t'"
proof (cases x)
  case (UpdateRange l r d)
  with a b equiv_updateRange [OF e, of l r d s' t'] show ?thesis by auto
next
  case (PointUpdate pos val)
  with a b equiv_pointUpdate [OF e, of pos val s' t'] show ?thesis by auto
next
  case (RangeMin l r)
  with a b obtain x' y' where "rangeMin s l r = Some (x', s')" "xs = [x']"
    "rangeMin t l r = Some (y', t')" "ys = [y']" by auto
  with equiv_rangeMin [OF e, of l r x' s' y' t'] show ?thesis by simp
qed

lemma equiv_run_answers:
  "equiv s t \<Longrightarrow> run_answers s ops = Some (xs, s') \<Longrightarrow> run_answers t ops = Some (ys, t') \<Longrightarrow>
   xs = ys \<and> equiv s' t'"
proof (induction ops arbitrary: s t xs ys)
  case Nil
  then show ?case by simp
next
  case (Cons x ops)
  from Cons.prems(2) obtain a s1 as where
    a: "step s x = Some (a, s1)" "run_answers s1 ops = Some (as, s')" "xs = a @ as"
    by (auto simp: bind_eq_Some_conv)
  from Cons.prems(3) obtain b t1 bs where
    b: "step t x = Some (b, t1)" "run_answers t1 ops = Some (bs, t')" "ys = b @ bs"
    by (auto simp: bind_eq_Some_conv)
  from equiv_step [OF Cons.prems(1) a(1) b(1)] have "a = b" "equiv s1 t1" by simp_all
  with Cons.IH [OF _ a(2) b(2)] a(3) b(3) show ?case by simp
qed

lemma rangeMin_equiv:
  assumes g: "good s" and q: "rangeMin s l r = Some (x, s')"
  shows "equiv s s'"
  using rangeMin_good [OF g q] rangeMin_logical(2) [OF g q] g by (simp add: equiv_def)

lemma rangeMins_obs:
  "wfs s \<Longrightarrow> rangeMins s qs = Some (xs, s1) \<Longrightarrow>
   wfs s1 \<and> (\<forall>l r. map_option fst (rangeMin s1 l r) = map_option fst (rangeMin s l r))"
proof (induction qs arbitrary: s xs)
  case Nil
  then show ?case by simp
next
  case (Cons q qs)
  obtain l r where q: "q = (l, r)" by (cases q)
  from Cons.prems(2) obtain x s2 ys where
    a: "rangeMin s l r = Some (x, s2)" and b: "rangeMins s2 qs = Some (ys, s1)"
    by (auto simp: q bind_eq_Some_conv)
  note st = rangeMin_step [OF Cons.prems(1) a]
  from Cons.IH [OF st(1) b] st(3) show ?case by simp
qed

lemma equiv_refl: "good s \<Longrightarrow> equiv s s"
  by (simp add: equiv_def)

lemma equiv_trans: "equiv s t \<Longrightarrow> equiv t u \<Longrightarrow> equiv s u"
  by (simp add: equiv_def)

lemma rangeMins_equiv: "good s \<Longrightarrow> rangeMins s qs = Some (xs, s1) \<Longrightarrow> equiv s s1"
proof (induction qs arbitrary: s xs)
  case Nil
  then show ?case by (simp add: equiv_refl)
next
  case (Cons q qs)
  obtain l r where q: "q = (l, r)" by (cases q)
  from Cons.prems(2) obtain x s2 ys where
    a: "rangeMin s l r = Some (x, s2)" and b: "rangeMins s2 qs = Some (ys, s1)"
    by (auto simp: q bind_eq_Some_conv)
  from rangeMin_good [OF Cons.prems(1) a] have g2: "good s2" by simp
  from equiv_trans [OF rangeMin_equiv [OF Cons.prems(1) a] Cons.IH [OF g2 b]] show ?case .
qed

text \<open>
  Claim C4 (reading has no observable effect). In every reachable state, a query that
  returns \<open>x\<close> returns \<open>x\<close> again when it is repeated at once. After any sequence of
  queries, the answer to every query is the one the state before the sequence gives (as
  a value, or as the absence of one where a flush overflows), and every sequence of
  operations that returns from both states gives the same answers from both.
\<close>

theorem repeated_queries:
  assumes "reachable arr ops s"
  shows "(\<forall>x s1. rangeMin s l r = Some (x, s1) \<longrightarrow> (\<exists>s2. rangeMin s1 l r = Some (x, s2))) \<and>
    (\<forall>qs xs s1. rangeMins s qs = Some (xs, s1) \<longrightarrow>
       map_option fst (rangeMin s1 l r) = map_option fst (rangeMin s l r) \<and>
       (\<forall>ops' as sf as' sf'.
          run_answers s ops' = Some (as, sf) \<longrightarrow> run_answers s1 ops' = Some (as', sf') \<longrightarrow>
          as' = as))"
proof (intro conjI allI impI)
  note w = reachable_wfs [OF assms]
  fix x s1 assume q: "rangeMin s l r = Some (x, s1)"
  from rangeMin_step(3) [OF w q, of l r] q
  have "map_option fst (rangeMin s1 l r) = Some x" by simp
  then show "\<exists>s2. rangeMin s1 l r = Some (x, s2)" by auto
next
  note w = reachable_wfs [OF assms]
  fix qs xs s1 assume "rangeMins s qs = Some (xs, s1)"
  from rangeMins_obs [OF w this]
  show "map_option fst (rangeMin s1 l r) = map_option fst (rangeMin s l r)" by blast
next
  fix qs xs s1 ops' as sf as' sf'
  assume q: "rangeMins s qs = Some (xs, s1)" and a: "run_answers s ops' = Some (as, sf)"
    and b: "run_answers s1 ops' = Some (as', sf')"
  from equiv_run_answers [OF rangeMins_equiv [OF reachable_good(1) [OF assms] q] a b]
  show "as' = as" by simp
qed

theorem repeated_queries_witness:
  "reachable [1, 3, 2, 4] [PointUpdate 2 0, UpdateRange 0 3 5]
     (the (SegmentTree_init [1, 3, 2, 4] \<bind>
        (\<lambda>s0. run s0 [PointUpdate 2 0, UpdateRange 0 3 5]))) \<and>
   (\<exists>s1 s2.
      rangeMin (the (SegmentTree_init [1, 3, 2, 4] \<bind>
        (\<lambda>s0. run s0 [PointUpdate 2 0, UpdateRange 0 3 5]))) 1 2 = Some (5, s1) \<and>
      lazy s1 \<noteq> lazy (the (SegmentTree_init [1, 3, 2, 4] \<bind>
        (\<lambda>s0. run s0 [PointUpdate 2 0, UpdateRange 0 3 5]))) \<and>
      rangeMin s1 1 2 = Some (5, s2)) \<and>
   (\<exists>xs s1 as sf sf'.
      rangeMins (the (SegmentTree_init [1, 3, 2, 4] \<bind>
        (\<lambda>s0. run s0 [PointUpdate 2 0, UpdateRange 0 3 5]))) [(0, 0), (3, 3)]
        = Some (xs, s1) \<and>
      segment_tree s1 \<noteq> segment_tree (the (SegmentTree_init [1, 3, 2, 4] \<bind>
        (\<lambda>s0. run s0 [PointUpdate 2 0, UpdateRange 0 3 5]))) \<and>
      map_option fst (rangeMin s1 1 2) = Some 5 \<and>
      map_option fst (rangeMin (the (SegmentTree_init [1, 3, 2, 4] \<bind>
        (\<lambda>s0. run s0 [PointUpdate 2 0, UpdateRange 0 3 5]))) 1 2) = Some 5 \<and>
      run_answers (the (SegmentTree_init [1, 3, 2, 4] \<bind>
        (\<lambda>s0. run s0 [PointUpdate 2 0, UpdateRange 0 3 5])))
        [UpdateRange 1 2 3, RangeMin 0 3, PointUpdate 0 9, RangeMin 0 1] = Some (as, sf) \<and>
      run_answers s1
        [UpdateRange 1 2 3, RangeMin 0 3, PointUpdate 0 9, RangeMin 0 1] = Some (as, sf'))"
proof -
  let ?S = "the (SegmentTree_init [1, 3, 2, 4] \<bind>
        (\<lambda>s0. run s0 [PointUpdate 2 0, UpdateRange 0 3 5]))"
  let ?O = "[UpdateRange 1 2 3, RangeMin 0 3, PointUpdate 0 9, RangeMin 0 1]"
  have r: "reachable [1, 3, 2, 4] [PointUpdate 2 0, UpdateRange 0 3 5] ?S"
    by code_simp
  note T = repeated_queries [OF r, of 1 2]
  have "map_option fst (rangeMin ?S 1 2) = Some 5" by code_simp
  then obtain s1 where q: "rangeMin ?S 1 2 = Some (5, s1)" by auto
  then have s1: "s1 = snd (the (rangeMin ?S 1 2))" by simp
  have d1: "lazy s1 \<noteq> lazy ?S" unfolding s1 by code_simp
  from T q obtain s2 where "rangeMin s1 1 2 = Some (5, s2)" by blast
  with q d1 have 1: "\<exists>s1 s2. rangeMin ?S 1 2 = Some (5, s1) \<and> lazy s1 \<noteq> lazy ?S \<and>
      rangeMin s1 1 2 = Some (5, s2)" by blast
  have "rangeMins ?S [(0, 0), (3, 3)] \<noteq> None" by code_simp
  then obtain xs s3 where qs: "rangeMins ?S [(0, 0), (3, 3)] = Some (xs, s3)" by auto
  then have s3: "s3 = snd (the (rangeMins ?S [(0, 0), (3, 3)]))" by simp
  have d3: "segment_tree s3 \<noteq> segment_tree ?S" unfolding s3 by code_simp
  have v: "map_option fst (rangeMin ?S 1 2) = Some 5" by code_simp
  from T qs have "map_option fst (rangeMin s3 1 2) = map_option fst (rangeMin ?S 1 2)"
    by blast
  with v have v3: "map_option fst (rangeMin s3 1 2) = Some 5" by simp
  have "run_answers ?S ?O \<noteq> None" by code_simp
  then obtain as sf where a: "run_answers ?S ?O = Some (as, sf)" by auto
  have "run_answers s3 ?O \<noteq> None" unfolding s3 by code_simp
  then obtain as' sf' where b: "run_answers s3 ?O = Some (as', sf')" by auto
  from T qs a b have "as' = as" by blast
  with b have b': "run_answers s3 ?O = Some (as, sf')" by simp
  from qs d3 v3 v a b' have 2: "\<exists>xs s1 as sf sf'.
      rangeMins ?S [(0, 0), (3, 3)] = Some (xs, s1) \<and>
      segment_tree s1 \<noteq> segment_tree ?S \<and>
      map_option fst (rangeMin s1 1 2) = Some 5 \<and>
      map_option fst (rangeMin ?S 1 2) = Some 5 \<and>
      run_answers ?S ?O = Some (as, sf) \<and> run_answers s1 ?O = Some (as, sf')" by blast
  from r 1 2 show ?thesis by blast
qed


section \<open>Range updates on disjoint ranges\<close>

lemma t_update_out:
  "en < st \<or> r < st \<or> en < l \<Longrightarrow> t_update t st en l r d = t_push t"
  by (subst t_update.simps) simp

lemma t_update_push_None: "t_push t = None \<Longrightarrow> t_update t st en l r d = None"
  by (subst t_update.simps) simp

lemma t_update_push:
  assumes "t_push t = Some t1"
  shows "t_update t1 st en l r d = t_update t st en l r d"
  by (subst (1 2) t_update.simps) (simp add: assms t_push_idem [OF assms])

lemma t_update_tz:
  assumes "t_update t st en l r d = Some t'"
  shows "tz t' = 0"
  using assms
proof (cases rule: t_update_unfold)
  case (out t1)
  then show ?thesis using t_push_props(1) by simp
next
  case (full t1 z')
  then show ?thesis using t_push_props(1) by simp
next
  case (part v z a b a' b')
  then show ?thesis using t_push_props(1) [OF part(1)] by simp
qed

lemma t_update_Leaf0:
  assumes no: "\<not> (en < st \<or> r < st \<or> en < l)" and nf: "\<not> (l \<le> st \<and> en \<le> r)"
  shows "t_update (Leaf v 0) st en l r d = None"
  by (subst t_update.simps) (simp add: no nf)

lemma t_update_Node0:
  assumes no: "\<not> (en < st \<or> r < st \<or> en < l)" and nf: "\<not> (l \<le> st \<and> en \<le> r)"
  shows "t_update (Node v 0 a b) st en l r d = do {
     a' \<leftarrow> t_update a st ((st + en) div 2) l r d;
     b' \<leftarrow> t_update b ((st + en) div 2 + 1) en l r d;
     Some (Node (min (tv a') (tv b')) 0 a' b')
   }"
  by (subst t_update.simps) (simp add: no nf)

lemma bind_interchange:
  fixes A :: "'a option" and B :: "'b option" and K :: "'c \<Rightarrow> 'd \<Rightarrow> 'e option"
  shows "do { a1 \<leftarrow> A; b1 \<leftarrow> B; a2 \<leftarrow> f a1; b2 \<leftarrow> g b1; K a2 b2 } =
   do { a2 \<leftarrow> (A \<bind> f); b2 \<leftarrow> (B \<bind> g); K a2 b2 }"
proof (cases A)
  case None
  then show ?thesis by simp
next
  case a: (Some a1)
  show ?thesis
  proof (cases B)
    case None
    then show ?thesis by (cases "f a1") (simp_all add: a)
  next
    case (Some b1)
    then show ?thesis by (simp add: a)
  qed
qed

lemma t_update_commute:
  assumes dj: "r1 < l2 \<or> r2 < l1"
  shows "t_update t st en l1 r1 d1 \<bind> (\<lambda>t'. t_update t' st en l2 r2 d2) =
    t_update t st en l2 r2 d2 \<bind> (\<lambda>t'. t_update t' st en l1 r1 d1)"
proof (induction t arbitrary: st en rule: measure_induct_rule [where f = size])
  case (less t)
  show ?case
  proof (cases "t_push t")
    case None
    then show ?thesis by (simp add: t_update_push_None)
  next
    case (Some t1)
    note idem = t_push_idem [OF Some]
    have z1: "tz t1 = 0" by (rule t_push_props(1) [OF Some])
    have red: "t_update t st en l r d = t_update t1 st en l r d" for l r d
      by (rule t_update_push [OF Some, symmetric])
    have out_absorb: "t_update t1 st en l r d \<bind> (\<lambda>t'. t_update t' st en l' r' d') =
        t_update t1 st en l r d" if "en < st \<or> r' < st \<or> en < l'" for l r d l' r' d'
    proof (cases "t_update t1 st en l r d")
      case None
      then show ?thesis by simp
    next
      case (Some t2)
      have "t_update t2 st en l' r' d' = Some t2"
        using t_update_out [OF that] t_push_zero [OF t_update_tz [OF Some]] by simp
      with Some show ?thesis by simp
    qed
    have out_first: "t_update t1 st en l' r' d' \<bind> (\<lambda>t'. t_update t' st en l r d) =
        t_update t1 st en l r d" if "en < st \<or> r' < st \<or> en < l'" for l r d l' r' d'
      using t_update_out [OF that, of t1 d'] idem by simp
    show ?thesis
    proof (cases "en < st \<or> r1 < st \<or> en < l1")
      case True
      show ?thesis unfolding red using out_first [OF True] out_absorb [OF True] by simp
    next
      case no1: False
      show ?thesis
      proof (cases "en < st \<or> r2 < st \<or> en < l2")
        case True
        show ?thesis unfolding red using out_first [OF True] out_absorb [OF True] by simp
      next
        case no2: False
        have nf1: "\<not> (l1 \<le> st \<and> en \<le> r1)" and nf2: "\<not> (l2 \<le> st \<and> en \<le> r2)"
          using no1 no2 dj by linarith+
        show ?thesis
        proof (cases t1)
          case (Leaf v z)
          with z1 have "t1 = Leaf v 0" by simp
          then show ?thesis
            unfolding red by (simp add: t_update_Leaf0 [OF no1 nf1] t_update_Leaf0 [OF no2 nf2])
        next
          case (Node v z a b)
          with z1 have t1: "t1 = Node v 0 a b" by simp
          let ?m = "(st + en) div 2"
          from t_push_child_size [OF Some [unfolded t1]]
          have sz: "size a < size t" "size b < size t" by simp_all
          note A = less.IH [OF sz(1), of st ?m] and B = less.IH [OF sz(2), of "?m + 1" en]
          have "t_update t1 st en l1 r1 d1 \<bind> (\<lambda>t'. t_update t' st en l2 r2 d2) =
            do { a2 \<leftarrow> (t_update a st ?m l1 r1 d1 \<bind> (\<lambda>t'. t_update t' st ?m l2 r2 d2));
                 b2 \<leftarrow> (t_update b (?m + 1) en l1 r1 d1 \<bind>
                          (\<lambda>t'. t_update t' (?m + 1) en l2 r2 d2));
                 Some (Node (min (tv a2) (tv b2)) 0 a2 b2) }"
            unfolding t1 t_update_Node0 [OF no1 nf1] bind_interchange [symmetric]
            by (simp add: t_update_Node0 [OF no2 nf2])
          moreover have "t_update t1 st en l2 r2 d2 \<bind> (\<lambda>t'. t_update t' st en l1 r1 d1) =
            do { a2 \<leftarrow> (t_update a st ?m l2 r2 d2 \<bind> (\<lambda>t'. t_update t' st ?m l1 r1 d1));
                 b2 \<leftarrow> (t_update b (?m + 1) en l2 r2 d2 \<bind>
                          (\<lambda>t'. t_update t' (?m + 1) en l1 r1 d1));
                 Some (Node (min (tv a2) (tv b2)) 0 a2 b2) }"
            unfolding t1 t_update_Node0 [OF no2 nf2] bind_interchange [symmetric]
            by (simp add: t_update_Node0 [OF no1 nf1])
          ultimately show ?thesis unfolding red A B by simp
        qed
      qed
    qed
  qed
qed

lemma abs_tree_eqD:
  "abs_tree sa i st en = abs_tree sb i st en \<Longrightarrow> j \<in> nodes i st en \<Longrightarrow>
   segment_tree sa ! j = segment_tree sb ! j \<and> lazy sa ! j = lazy sb ! j"
proof (induction i st en rule: nodes.induct)
  case (1 i st en)
  show ?case
  proof (cases "st < en")
    case False
    with "1.prems"(2) have "j = i" by (simp add: nodes.simps [of i st en])
    with "1.prems"(1) False show ?thesis by (simp add: abs_tree.simps [of _ i st en])
  next
    case True
    let ?m = "(st + en) div 2"
    from "1.prems"(1) True have
      r: "segment_tree sa ! i = segment_tree sb ! i" "lazy sa ! i = lazy sb ! i"
      and l: "abs_tree sa (2 * i) st ?m = abs_tree sb (2 * i) st ?m"
      and rr: "abs_tree sa (2 * i + 1) (?m + 1) en = abs_tree sb (2 * i + 1) (?m + 1) en"
      by (simp_all add: abs_tree.simps [of _ i st en])
    from "1.prems"(2) True consider "j = i" | "j \<in> nodes (2 * i) st ?m"
      | "j \<in> nodes (2 * i + 1) (?m + 1) en"
      by (auto simp: nodes.simps [of i st en])
    then show ?thesis
    proof cases
      case 1 with r show ?thesis by simp
    next
      case 2 show ?thesis by (rule "1.IH"(1) [OF True l 2])
    next
      case 3 show ?thesis by (rule "1.IH"(2) [OF True rr 3])
    qed
  qed
qed

lemma state_ext:
  assumes fa: "frame S s sa" and fb: "frame S s sb"
    and eq: "\<And>j. j \<in> S \<Longrightarrow>
      segment_tree sa ! j = segment_tree sb ! j \<and> lazy sa ! j = lazy sb ! j"
  shows "sa = sb"
proof (rule SegmentTree.equality)
  show "ar sa = ar sb" "n sa = n sb" using fa fb by (simp_all add: frame_def)
  have "segment_tree sa ! j = segment_tree sb ! j" for j
    using eq [of j] fa fb by (cases "j \<in> S") (simp_all add: frame_def)
  moreover have "length (segment_tree sa) = length (segment_tree sb)"
    using fa fb by (simp add: frame_def)
  ultimately show "segment_tree sa = segment_tree sb" by (intro nth_equalityI) simp_all
  have "lazy sa ! j = lazy sb ! j" for j
    using eq [of j] fa fb by (cases "j \<in> S") (simp_all add: frame_def)
  moreover have "length (lazy sa) = length (lazy sb)"
    using fa fb by (simp add: frame_def)
  ultimately show "lazy sa = lazy sb" by (intro nth_equalityI) simp_all
qed simp

lemma sim_unique:
  assumes "sim s i st en ot os" "sim s i st en ot os'"
  shows "os = os'"
proof (cases ot)
  case None
  with assms show ?thesis by (simp add: sim_def)
next
  case (Some t)
  with assms obtain sa sb where a: "os = Some sa" "abs_tree sa i st en = t"
    "frame (nodes i st en) s sa" and b: "os' = Some sb" "abs_tree sb i st en = t"
    "frame (nodes i st en) s sb" by (auto simp: sim_def)
  have "sa = sb"
  proof (rule state_ext [OF a(3) b(3)])
    fix j assume "j \<in> nodes i st en"
    with abs_tree_eqD [of sa i st en sb j] a(2) b(2)
    show "segment_tree sa ! j = segment_tree sb ! j \<and> lazy sa ! j = lazy sb ! j" by simp
  qed
  with a(1) b(1) show ?thesis by simp
qed

lemma updateRange_twice_sim:
  assumes w: "wfs s"
  shows "sim s 1 0 (n s - 1)
    (t_update (abs_tree s 1 0 (n s - 1)) 0 (n s - 1) l r d \<bind>
       (\<lambda>t'. t_update t' 0 (n s - 1) l' r' d'))
    (updateRange s l r d \<bind> (\<lambda>s'. updateRange s' l' r' d'))"
proof (cases "t_update (abs_tree s 1 0 (n s - 1)) 0 (n s - 1) l r d")
  case None
  with updateRange_sim [OF w, of l r d] show ?thesis by (simp add: sim_def)
next
  case (Some t1)
  with updateRange_sim [OF w, of l r d] obtain s1 where u: "updateRange s l r d = Some s1"
    and a: "abs_tree s1 1 0 (n s - 1) = t1" and f: "frame (nodes 1 0 (n s - 1)) s s1"
    by (auto simp: sim_def)
  have w1: "wfs s1" by (rule frame_wfs [OF f w])
  have n1: "n s1 = n s" by (rule frame_n [OF f])
  have "sim s1 1 0 (n s - 1) (t_update t1 0 (n s - 1) l' r' d') (updateRange s1 l' r' d')"
    using updateRange_sim [OF w1, of l' r' d'] unfolding n1 a .
  then have "sim s 1 0 (n s - 1) (t_update t1 0 (n s - 1) l' r' d') (updateRange s1 l' r' d')"
    using frame_trans [OF f] by (auto simp: sim_def split: option.splits)
  with Some u show ?thesis by simp
qed

text \<open>
  Claim C5 (updates on disjoint ranges commute). In every reachable state, two range
  updates whose index ranges are disjoint produce, in either order, the very same
  state (or fail together, where a flush overflows); every later operation therefore
  behaves identically after the two orders.
\<close>

theorem disjoint_updates_commute:
  assumes "reachable arr ops s" and "r1 < l2 \<or> r2 < l1"
  shows "updateRange s l1 r1 d1 \<bind> (\<lambda>s'. updateRange s' l2 r2 d2) =
    updateRange s l2 r2 d2 \<bind> (\<lambda>s'. updateRange s' l1 r1 d1)"
proof -
  note w = reachable_wfs [OF assms(1)]
  note A = updateRange_twice_sim [OF w, of l1 r1 d1 l2 r2 d2]
  note B = updateRange_twice_sim [OF w, of l2 r2 d2 l1 r1 d1]
  from A have "sim s 1 0 (n s - 1)
    (t_update (abs_tree s 1 0 (n s - 1)) 0 (n s - 1) l2 r2 d2 \<bind>
       (\<lambda>t'. t_update t' 0 (n s - 1) l1 r1 d1))
    (updateRange s l1 r1 d1 \<bind> (\<lambda>s'. updateRange s' l2 r2 d2))"
    by (simp only: t_update_commute [OF assms(2)])
  from sim_unique [OF this B] show ?thesis .
qed

theorem disjoint_updates_commute_witness:
  "reachable [4, 1, 3, 2] [UpdateRange 0 3 5, RangeMin 1 2]
     (the (SegmentTree_init [4, 1, 3, 2] \<bind>
        (\<lambda>s0. run s0 [UpdateRange 0 3 5, RangeMin 1 2]))) \<and>
   (1::nat) < 2 \<and>
   updateRange (the (SegmentTree_init [4, 1, 3, 2] \<bind>
        (\<lambda>s0. run s0 [UpdateRange 0 3 5, RangeMin 1 2]))) 0 1 7 \<bind>
     (\<lambda>s'. updateRange s' 2 3 (- 9)) =
   updateRange (the (SegmentTree_init [4, 1, 3, 2] \<bind>
        (\<lambda>s0. run s0 [UpdateRange 0 3 5, RangeMin 1 2]))) 2 3 (- 9) \<bind>
     (\<lambda>s'. updateRange s' 0 1 7) \<and>
   updateRange (the (SegmentTree_init [4, 1, 3, 2] \<bind>
        (\<lambda>s0. run s0 [UpdateRange 0 3 5, RangeMin 1 2]))) 0 1 7 \<bind>
     (\<lambda>s'. updateRange s' 2 3 (- 9)) \<noteq> None"
proof -
  let ?S = "the (SegmentTree_init [4, 1, 3, 2] \<bind>
        (\<lambda>s0. run s0 [UpdateRange 0 3 5, RangeMin 1 2]))"
  have r: "reachable [4, 1, 3, 2] [UpdateRange 0 3 5, RangeMin 1 2] ?S"
    by code_simp
  have lt: "(1::nat) < 2" by simp
  have ne: "updateRange ?S 0 1 7 \<bind> (\<lambda>s'. updateRange s' 2 3 (- 9)) \<noteq> None"
    by code_simp
  from disjoint_updates_commute [OF r disjI1 [OF lt],
      where ?l1.0 = 0 and ?r2.0 = 3 and ?d1.0 = 7 and ?d2.0 = "- 9"] r lt ne
  show ?thesis by blast
qed

section \<open>One range update of a fresh tree, then a query\<close>

lemma clean_safe:
  "tclean t \<Longrightarrow> tinv t \<Longrightarrow> shaped t st en \<Longrightarrow> in_ll d \<Longrightarrow>
   (\<forall>k. st \<le> k \<and> k \<le> en \<longrightarrow> in_ll (lval t st en k + d)) \<Longrightarrow> tsafe d t"
proof (induction t arbitrary: st en)
  case (Leaf v z)
  then show ?case by (auto simp: ac_simps)
next
  case (Node v z a b)
  let ?m = "(st + en) div 2"
  from Node.prems have z: "z = 0" and c: "tclean a" "tclean b" and ti: "tinv a" "tinv b"
    and sh: "st < en" "shaped a st ?m" "shaped b (?m + 1) en" by simp_all
  have m: "st \<le> ?m" "?m < en" using sh(1) by linarith+
  from tinv_bounds [OF Node.prems(3,2)] obtain k0 where
    k0: "st \<le> k0" "k0 \<le> en" "v + z = lval (Node v z a b) st en k0" by auto
  with Node.prems(5) have v: "in_ll (v + z + d)" by metis
  have lva: "lval (Node v z a b) st en k = lval a st ?m k" if "k \<le> ?m" for k
    using that z by simp
  have lvb: "lval (Node v z a b) st en k = lval b (?m + 1) en k" if "?m + 1 \<le> k" for k
    using that z by simp
  have a: "\<forall>k. st \<le> k \<and> k \<le> ?m \<longrightarrow> in_ll (lval a st ?m k + d)"
  proof (intro allI impI)
    fix k assume k: "st \<le> k \<and> k \<le> ?m"
    then have "st \<le> k \<and> k \<le> en" using m by linarith
    with Node.prems(5) have "in_ll (lval (Node v z a b) st en k + d)" by blast
    with k show "in_ll (lval a st ?m k + d)" by (simp only: lva)
  qed
  have b: "\<forall>k. ?m + 1 \<le> k \<and> k \<le> en \<longrightarrow> in_ll (lval b (?m + 1) en k + d)"
  proof (intro allI impI)
    fix k assume k: "?m + 1 \<le> k \<and> k \<le> en"
    then have "st \<le> k \<and> k \<le> en" using m by linarith
    with Node.prems(5) have "in_ll (lval (Node v z a b) st en k + d)" by blast
    with k show "in_ll (lval b (?m + 1) en k + d)" by (simp only: lvb)
  qed
  from Node.IH(1) [OF c(1) ti(1) sh(2) Node.prems(4) a]
    Node.IH(2) [OF c(2) ti(2) sh(3) Node.prems(4) b] v z Node.prems(4)
  show ?case by (simp add: ac_simps)
qed

lemma add_ll_in: "in_ll (a + b) \<Longrightarrow> add_ll a b = Some (a + b)"
  by (simp add: add_ll_def)

lemma t_update_clean:
  "tclean t \<Longrightarrow> tinv t \<Longrightarrow> shaped t st en \<Longrightarrow> in_ll d \<Longrightarrow>
   (\<forall>k. st \<le> k \<and> k \<le> en \<longrightarrow> in_ll (lval t st en k)) \<Longrightarrow>
   (\<forall>k. st \<le> k \<and> k \<le> en \<and> l \<le> k \<and> k \<le> r \<longrightarrow> in_ll (lval t st en k + d)) \<Longrightarrow>
   \<exists>t'. t_update t st en l r d = Some t' \<and> tsafe 0 t'"
proof (induction t arbitrary: st en)
  case (Leaf v z)
  then have z: "z = 0" and eq: "st = en" and v: "in_ll v" by auto
  show ?case
  proof (cases "r < st \<or> en < l")
    case True
    then have "t_update (Leaf v z) st en l r d = Some (Leaf v z)"
      using z by (simp add: t_update_out)
    with z v show ?thesis by simp
  next
    case False
    with eq have f: "l \<le> st \<and> en \<le> r" by auto
    with Leaf.prems(6) eq z have vd: "in_ll (v + d)" by auto
    have "t_update (Leaf v z) st en l r d = Some (Leaf (v + d) 0)"
      using f eq z Leaf.prems(4) vd by (subst t_update.simps) (auto simp: add_ll_def)
    with vd show ?thesis by simp
  qed
next
  case (Node v z a b)
  let ?m = "(st + en) div 2"
  let ?t = "Node v z a b"
  from Node.prems have z: "z = 0" and c: "tclean a" "tclean b" and ti: "tinv a" "tinv b"
    and sh: "st < en" "shaped a st ?m" "shaped b (?m + 1) en" by simp_all
  have m: "st \<le> ?m" "?m < en" using sh(1) by linarith+
  have tza: "tz a = 0" "tz b = 0" using c by (simp_all add: tclean_tz)
  have lva: "lval ?t st en k = lval a st ?m k" if "k \<le> ?m" for k using that z by simp
  have lvb: "lval ?t st en k = lval b (?m + 1) en k" if "?m + 1 \<le> k" for k
    using that z by simp
  from tinv_bounds [OF Node.prems(3,2)] obtain k0 where
    k0: "st \<le> k0" "k0 \<le> en" "v = lval ?t st en k0" using z by auto
  have s0: "tsafe 0 ?t"
    using clean_safe [OF Node.prems(1,2,3), of 0] Node.prems(5) by simp
  show ?case
  proof (cases "r < st \<or> en < l")
    case True
    then have "t_update ?t st en l r d = Some ?t"
      using z by (simp add: t_update_out)
    with s0 show ?thesis by simp
  next
    case no: False
    show ?thesis
    proof (cases "l \<le> st \<and> en \<le> r")
      case True
      have all: "\<forall>k. st \<le> k \<and> k \<le> en \<longrightarrow> in_ll (lval ?t st en k + d)"
        using Node.prems(6) True by auto
      have sd: "tsafe d ?t" by (rule clean_safe [OF Node.prems(1,2,3,4) all])
      then have vd: "in_ll (v + d)" and sa: "tsafe d a" and sb: "tsafe d b"
        using z by simp_all
      show ?thesis
      proof (cases "d = 0")
        case True
        have "t_update ?t st en l r d = Some ?t"
          using \<open>l \<le> st \<and> en \<le> r\<close> no sh(1) z True
          by (subst t_update.simps) (auto simp: add_ll_def)
        with s0 show ?thesis by simp
      next
        case False
        have "t_update ?t st en l r d =
            Some (Node (v + d) 0 (root_upd a (tv a) d) (root_upd b (tv b) d))"
          using \<open>l \<le> st \<and> en \<le> r\<close> no sh(1) z False Node.prems(4) vd tza
          by (subst t_update.simps) (auto simp: add_ll_def)
        moreover have "tsafe 0 (root_upd a (tv a) d)" "tsafe 0 (root_upd b (tv b) d)"
          using tsafe_root_upd [of 0 a d] tsafe_root_upd [of 0 b d] sa sb tza by simp_all
        ultimately show ?thesis using vd by simp
      qed
    next
      case part: False
      have no': "\<not> (en < st \<or> r < st \<or> en < l)" using no sh(1) by auto
      have a5: "\<forall>k. st \<le> k \<and> k \<le> ?m \<longrightarrow> in_ll (lval a st ?m k)"
        using Node.prems(5) m lva by (metis le_trans less_imp_le)
      have b5: "\<forall>k. ?m + 1 \<le> k \<and> k \<le> en \<longrightarrow> in_ll (lval b (?m + 1) en k)"
        using Node.prems(5) m lvb by (metis le_trans le_add1)
      have a6: "\<forall>k. st \<le> k \<and> k \<le> ?m \<and> l \<le> k \<and> k \<le> r \<longrightarrow> in_ll (lval a st ?m k + d)"
        using Node.prems(6) m lva by (metis le_trans less_imp_le)
      have b6: "\<forall>k. ?m + 1 \<le> k \<and> k \<le> en \<and> l \<le> k \<and> k \<le> r \<longrightarrow>
          in_ll (lval b (?m + 1) en k + d)"
        using Node.prems(6) m lvb by (metis le_trans le_add1)
      from Node.IH(1) [OF c(1) ti(1) sh(2) Node.prems(4) a5 a6] obtain a' where
        ua: "t_update a st ?m l r d = Some a'" and sa: "tsafe 0 a'" by blast
      from Node.IH(2) [OF c(2) ti(2) sh(3) Node.prems(4) b5 b6] obtain b' where
        ub: "t_update b (?m + 1) en l r d = Some b'" and sb: "tsafe 0 b'" by blast
      have "in_ll (tv a')" "in_ll (tv b')"
        using tsafe_in_ll [OF sa] tsafe_in_ll [OF sb] t_update_tz [OF ua] t_update_tz [OF ub]
        by simp_all
      then have mn: "in_ll (min (tv a') (tv b'))" by (simp add: min_def)
      have "t_update ?t st en l r d = Some (Node (min (tv a') (tv b')) 0 a' b')"
        using ua ub by (simp add: z t_update_Node0 [OF no' part])
      with sa sb mn show ?thesis by simp
    qed
  qed
qed

lemma naive_rangeUpdate_nth:
  "k < length xs \<Longrightarrow>
   naive_rangeUpdate xs lo hi d ! k = (if lo \<le> k \<and> k \<le> hi then xs ! k + d else xs ! k)"
  by (simp add: naive_rangeUpdate_def)

lemma naive_rangeMin_image: "naive_rangeMin xs ql qh = Min ((!) xs ` {ql..qh})"
  unfolding naive_rangeMin_def
  by (simp only: set_map set_upt Suc_eq_plus1 [symmetric] atLeastLessThanSuc_atLeastAtMost)

text \<open>
  Claim C1 (range update against the naive simulation), as stated, fails: a query
  answers \<open>INF\<close> (1e18) for every node outside the query range and takes the minimum
  with it, so an element above 1e18 is never reported by a query that descends below
  the root.
\<close>

theorem range_update_query_counterexample:
  "map_option fst (SegmentTree_init [2000000000000000000, 0] \<bind>
      (\<lambda>s. updateRange s 1 1 5) \<bind> (\<lambda>s. rangeMin s 0 0)) = Some 1000000000000000000 \<and>
   naive_rangeMin (naive_rangeUpdate [2000000000000000000, 0] 1 1 5) 0 0
     = 2000000000000000000"
  by code_simp

text \<open>
  Claim C1, amended. For every non-empty array of 64-bit values, every in-range update
  \<open>(lo, hi, delta)\<close> whose sums \<open>A[k] + delta\<close>, \<open>k \<in> [lo, hi]\<close>, stay within the signed
  64-bit range, and every in-range query \<open>[ql, qh]\<close> over which no updated element
  exceeds \<open>INF\<close>: the constructor, the update and the query all return, and the query
  returns the minimum over \<open>[ql, qh]\<close> of the naively updated array.
\<close>

theorem range_update_then_query:
  assumes ne: "arr \<noteq> []" and a: "list_all in_ll arr" and d: "in_ll delta"
    and r: "lo \<le> hi" "hi < length arr" and q: "ql \<le> qh" "qh < length arr"
    and od: "\<forall>k\<in>{lo..hi}. in_ll (arr ! k + delta)"
    and le: "\<forall>k\<in>{ql..qh}. naive_rangeUpdate arr lo hi delta ! k \<le> INF_ll"
  shows "map_option fst (SegmentTree_init arr \<bind> (\<lambda>s. updateRange s lo hi delta) \<bind>
      (\<lambda>s. rangeMin s ql qh))
    = Some (naive_rangeMin (naive_rangeUpdate arr lo hi delta) ql qh)"
proof -
  let ?e = "length arr - 1"
  let ?tb = "t_build arr 0 ?e"
  let ?u = "naive_rangeUpdate arr lo hi delta"
  have e: "k \<le> ?e \<longleftrightarrow> k < length arr" for k using ne by (cases arr) auto
  from SegmentTree_init_sim [OF ne] obtain s0 where i: "SegmentTree_init arr = Some s0"
    and w0: "wfs s0" and n0: "n s0 = length arr" and a0: "abs_tree s0 1 0 ?e = ?tb" by blast
  from t_build_props [of 0 ?e arr] have sh: "shaped ?tb 0 ?e" and ti: "tinv ?tb"
    and cl: "tclean ?tb" and lv: "\<And>k. k \<le> ?e \<Longrightarrow> lval ?tb 0 ?e k = arr ! k" by simp_all
  have in0: "\<forall>k. 0 \<le> k \<and> k \<le> ?e \<longrightarrow> in_ll (lval ?tb 0 ?e k)"
  proof (intro allI impI)
    fix k assume k: "0 \<le> k \<and> k \<le> ?e"
    then have "k < length arr" by (simp only: e)
    with a have "in_ll (arr ! k)" by (simp add: list_all_length)
    with k show "in_ll (lval ?tb 0 ?e k)" by (simp only: lv)
  qed
  have in1: "\<forall>k. 0 \<le> k \<and> k \<le> ?e \<and> lo \<le> k \<and> k \<le> hi \<longrightarrow> in_ll (lval ?tb 0 ?e k + delta)"
  proof (intro allI impI)
    fix k assume k: "0 \<le> k \<and> k \<le> ?e \<and> lo \<le> k \<and> k \<le> hi"
    with od have "in_ll (arr ! k + delta)" by simp
    with k show "in_ll (lval ?tb 0 ?e k + delta)" by (simp only: lv)
  qed
  from t_update_clean [OF cl ti sh d in0 in1] obtain t1 where
    tu: "t_update ?tb 0 ?e lo hi delta = Some t1" and sf: "tsafe 0 t1" by blast
  have "sim s0 1 0 ?e (Some t1) (updateRange s0 lo hi delta)"
    using updateRange_sim [OF w0, of lo hi delta] unfolding n0 a0 tu .
  from simD_Some [OF this] obtain s1 where u: "updateRange s0 lo hi delta = Some s1"
    and a1: "abs_tree s1 1 0 ?e = t1" and f1: "frame (nodes 1 0 ?e) s0 s1" by blast
  have w1: "wfs s1" by (rule frame_wfs [OF f1 w0])
  have n1: "n s1 = length arr" using frame_n [OF f1] n0 by simp
  from t_update_sem [OF tu sh] ti have sh1: "shaped t1 0 ?e" and ti1: "tinv t1"
    and lv1: "\<And>k. k \<le> ?e \<Longrightarrow>
      lval t1 0 ?e k = lval ?tb 0 ?e k + (if lo \<le> k \<and> k \<le> hi then delta else 0)"
    by simp_all
  have lvu: "lval t1 0 ?e k = ?u ! k" if "k \<le> ?e" for k
  proof -
    from that have "k < length arr" by (simp only: e)
    from naive_rangeUpdate_nth [OF this, of lo hi delta] lv1 [OF that] lv [OF that]
    show ?thesis by simp
  qed
  have qe: "qh \<le> ?e" using q(2) by (simp add: e)
  from t_query_safe [OF sf sh1, of ql qh] obtain x t2 where
    tq: "t_query t1 0 ?e ql qh = Some (x, t2)" by blast
  have le1: "\<forall>k. ql \<le> k \<and> k \<le> qh \<longrightarrow> lval t1 0 ?e k \<le> INF_ll"
    using le lvu qe by simp
  have "x = Min (lval t1 0 ?e ` {ql..qh})"
    by (rule t_query_Min [OF tq sh1 ti1 _ q(1) qe le1]) simp
  also have "lval t1 0 ?e ` {ql..qh} = (!) ?u ` {ql..qh}"
    using lvu qe by (intro image_cong) auto
  finally have x: "x = naive_rangeMin ?u ql qh" by (simp add: naive_rangeMin_image)
  have "sim_q s1 1 0 ?e (Some (x, t2)) (rangeMin s1 ql qh)"
    using rangeMin_sim [OF w1, of ql qh] unfolding n1 a1 tq .
  from sim_qD_Some [OF this] obtain s2 where "rangeMin s1 ql qh = Some (x, s2)" by blast
  with i u x show ?thesis by simp
qed

theorem range_update_then_query_witness:
  "map_option fst (SegmentTree_init [1, 3, 2, 4, 5, 6, 7, 8] \<bind>
      (\<lambda>s. updateRange s 1 3 2) \<bind> (\<lambda>s. rangeMin s 1 4)) = Some 4"
proof -
  have h: "[1, 3, 2, 4, 5, 6, 7, 8] \<noteq> ([] :: int list)"
    "list_all in_ll [1, 3, 2, 4, 5, 6, 7, 8]" "in_ll 2"
    "(1::nat) \<le> 3" "3 < length [1, 3, 2, 4, 5, 6, 7, 8 :: int]"
    "(1::nat) \<le> 4" "4 < length [1, 3, 2, 4, 5, 6, 7, 8 :: int]"
    "\<forall>k\<in>{1..3}. in_ll ([1, 3, 2, 4, 5, 6, 7, 8] ! k + 2)"
    "\<forall>k\<in>{1..4}. naive_rangeUpdate [1, 3, 2, 4, 5, 6, 7, 8] 1 3 2 ! k \<le> INF_ll"
    by code_simp+
  have "naive_rangeMin (naive_rangeUpdate [1, 3, 2, 4, 5, 6, 7, 8] 1 3 2) 1 4 = 4"
    by code_simp
  with range_update_then_query [OF h] show ?thesis by simp
qed

section \<open>The base array after a range update\<close>

text \<open>
  Claim C2 (point update), evaluated where it fails. \<open>pointUpdate\<close> takes its delta
  from \<open>ar[pos]\<close>, which \<open>updateRange\<close> never brings up to date: on the array of the
  repository's example, after \<open>updateRange(1, 3, 2)\<close>, \<open>pointUpdate(2, 0)\<close> leaves
  the value 2 at index 2, not 0.
\<close>

theorem point_update_after_range_update:
  "map_option fst (SegmentTree_init [1, 3, 2, 4, 5, 6, 7, 8] \<bind> (\<lambda>s. updateRange s 1 3 2) \<bind>
      (\<lambda>s. pointUpdate s 2 0) \<bind> (\<lambda>s. rangeMin s 2 2)) = Some 2 \<and>
   map_option fst (SegmentTree_init [1] \<bind> (\<lambda>s. updateRange s 0 0 5) \<bind>
      (\<lambda>s. pointUpdate s 0 10) \<bind> (\<lambda>s. rangeMin s 0 0)) = Some 15"
  by code_simp

text \<open>
  Claim C7 (leaves against the base array), evaluated where it fails. After
  \<open>updateRange(0, 0, 5)\<close> on the one-element array \<open>[1]\<close> the only leaf (node 1)
  stores 6 with no pending delta, while \<open>ar[0]\<close> is still 1.
\<close>

theorem leaf_differs_from_base_array:
  "reachable [1] [UpdateRange 0 0 5] (the (SegmentTree_init [1] \<bind> (\<lambda>s. updateRange s 0 0 5))) \<and>
   segment_tree (the (SegmentTree_init [1] \<bind> (\<lambda>s. updateRange s 0 0 5))) ! 1 = 6 \<and>
   lazy (the (SegmentTree_init [1] \<bind> (\<lambda>s. updateRange s 0 0 5))) ! 1 = 0 \<and>
   ar (the (SegmentTree_init [1] \<bind> (\<lambda>s. updateRange s 0 0 5))) ! 0 = 1"
  by code_simp

section \<open>Point updates where the base array is current\<close>

text \<open>
  \<open>ar[k]\<close> is current while no range update has covered \<open>k\<close>: the constructor and
  \<open>pointUpdate\<close> keep it equal to the logical value of element \<open>k\<close>, \<open>updateRange\<close>
  changes the logical value and not \<open>ar[k]\<close>.
\<close>

fun covers :: "nat \<Rightarrow> operation \<Rightarrow> bool" where
  "covers k (UpdateRange l r val) \<longleftrightarrow> l \<le> k \<and> k \<le> r"
| "covers k (PointUpdate pos val) \<longleftrightarrow> False"
| "covers k (RangeMin l r) \<longleftrightarrow> False"

lemma pointUpdate_logical:
  assumes g: "good s" and u: "pointUpdate s pos val = Some s'" and k: "k < n s"
  shows "logical s' k = logical s k + (if k = pos then val - ar s ! pos else 0)"
    and "ar s' = (ar s)[pos := val]"
proof -
  from pointUpdate_unfold [OF u] obtain s1 where p: "pos < length (ar s)"
    and u1: "updateRange s pos pos (val - ar s ! pos) = Some s1"
    and s': "s' = s1\<lparr>ar := (ar s1)[pos := val]\<rparr>" by blast
  note g1 = updateRange_good [OF g u1]
  have "logical s' k = logical s1 k" by (simp add: logical_def s')
  with updateRange_logical [OF g u1 k]
  show "logical s' k = logical s k + (if k = pos then val - ar s ! pos else 0)" by auto
  show "ar s' = (ar s)[pos := val]" using g1 by (simp add: s')
qed

lemma pointUpdate_pos:
  assumes "good s" "pointUpdate s pos val = Some s'"
  shows "pos < n s"
  using pointUpdate_unfold [OF assms(2)] assms(1) by (auto simp: good_def wfs_def)

lemma step_current:
  assumes g: "good s" and c: "logical s k = ar s ! k" and k: "k < n s"
    and a: "apply_op s x = Some s'" and nc: "\<not> covers k x"
  shows "logical s' k = ar s' ! k"
proof (cases x)
  case (UpdateRange l r d)
  with a have u: "updateRange s l r d = Some s'" by simp
  from updateRange_logical [OF g u k] updateRange_good [OF g u] nc UpdateRange c
  show ?thesis by auto
next
  case (PointUpdate pos val)
  with a have u: "pointUpdate s pos val = Some s'" by simp
  note pl = pointUpdate_logical [OF g u k]
  have "k < length (ar s)" using k g by (simp add: good_def wfs_def)
  with pl c show ?thesis by (cases "k = pos") simp_all
next
  case (RangeMin l r)
  with a obtain y where q: "rangeMin s l r = Some (y, s')" by auto
  from rangeMin_logical(2) [OF g q] rangeMin_good [OF g q] c show ?thesis by simp
qed

lemma run_current:
  "good s \<Longrightarrow> logical s k = ar s ! k \<Longrightarrow> k < n s \<Longrightarrow> run s ops = Some s' \<Longrightarrow>
   list_all (\<lambda>x. \<not> covers k x) ops \<Longrightarrow> logical s' k = ar s' ! k"
proof (induction ops arbitrary: s)
  case Nil
  then show ?case by simp
next
  case (Cons x xs)
  from Cons.prems(4) obtain s1 where a: "apply_op s x = Some s1" and r: "run s1 xs = Some s'"
    by (auto simp: bind_eq_Some_conv)
  from Cons.prems(5) have nc: "\<not> covers k x" "list_all (\<lambda>x. \<not> covers k x) xs" by simp_all
  note g1 = apply_op_good [OF Cons.prems(1) a]
  from Cons.IH [OF _ step_current [OF Cons.prems(1,2,3) a nc(1)] _ r nc(2)] g1 Cons.prems(3)
  show ?case by simp
qed

lemma init_logical:
  assumes i: "SegmentTree_init arr = Some s" and k: "k < length arr"
  shows "logical s k = arr ! k"
proof -
  have ne: "arr \<noteq> []" using k by auto
  from SegmentTree_init_sim [OF ne] i have n: "n s = length arr"
    and a: "abs_tree s 1 0 (length arr - 1) = t_build arr 0 (length arr - 1)" by auto
  from k have "0 \<le> k \<and> k \<le> length arr - 1" by simp
  moreover from t_build_props [of 0 "length arr - 1" arr]
  have "\<forall>k. 0 \<le> k \<and> k \<le> length arr - 1 \<longrightarrow>
      lval (t_build arr 0 (length arr - 1)) 0 (length arr - 1) k = arr ! k" by simp
  ultimately show ?thesis unfolding logical_def n a by blast
qed

lemma reachable_current:
  assumes r: "reachable arr ops s" and k: "k < length arr"
    and nc: "list_all (\<lambda>x. \<not> covers k x) ops"
  shows "logical s k = ar s ! k"
proof -
  from r obtain s0 where i: "SegmentTree_init arr = Some s0" and ru: "run s0 ops = Some s"
    by (auto simp: reachable_def bind_eq_Some_conv)
  note g0 = init_good [OF i]
  from run_current [OF _ _ _ ru nc, of ] init_logical [OF i k] g0 k show ?thesis by simp
qed

lemma t_update_then_query:
  "t_update t st en l r d = Some t' \<Longrightarrow> \<exists>x. t_query t' st en l r = Some (x, t')"
proof (induction t arbitrary: st en t' rule: measure_induct_rule [where f = size])
  case (less t)
  from less.prems show ?case
  proof (cases rule: t_update_unfold)
    case (out t1)
    then have p: "t_push t' = Some t'" using t_push_idem by simp
    from out(2) show ?thesis
    proof (cases "en < st")
      case True
      show ?thesis
      proof (cases "r < st \<or> en < l")
        case True
        then show ?thesis by (subst t_query.simps) (simp add: p)
      next
        case False
        with True have "l \<le> st \<and> en \<le> r" by linarith
        with False show ?thesis by (subst t_query.simps) (simp add: p)
      qed
    next
      case False
      with out(2) have "r < st \<or> en < l" by simp
      then show ?thesis by (subst t_query.simps) (simp add: p)
    qed
  next
    case (full t1 z')
    have p: "t_push t' = Some t'" by (rule t_push_idem [OF full(6)])
    have no: "\<not> (r < st \<or> en < l)" using full(2,3,4) by linarith
    have f: "l \<le> st \<and> en \<le> r" using full(3,4) by simp
    show ?thesis by (subst t_query.simps) (simp add: p no f)
  next
    case (part v z a b a' b')
    let ?m = "(st + en) div 2"
    from t_push_Node [OF part(1)] have sz: "size a < size t" "size b < size t" by auto
    have z: "z = 0" using t_push_props(1) [OF part(1)] by simp
    from less.IH [OF sz(1) part(4)] obtain xa where
      qa: "t_query a' st ?m l r = Some (xa, a')" by blast
    from less.IH [OF sz(2) part(5)] obtain xb where
      qb: "t_query b' (?m + 1) en l r = Some (xb, b')" by blast
    have no: "\<not> (r < st \<or> en < l)" using part(2) by simp
    have "t_query t' st en l r = Some (min xa xb, t')"
      using qa qb unfolding part(6) z t_query_Node0 by (simp add: no part(3))
    then show ?thesis ..
  qed
qed

lemma answer_point:
  assumes "i < N" "L i \<le> INF_ll"
  shows "answer L N i i = L i"
proof (cases "N - 1 \<le> i \<and> i \<le> 0")
  case True
  with assms(1) have "{0..N - 1} = {i}" by auto
  with True show ?thesis by (simp add: answer_def)
next
  case False
  have "{0..N - 1} \<inter> {i..i} = {i}" using assms(1) by auto
  with False assms(2) show ?thesis by (auto simp: answer_def)
qed

lemma answer_away:
  assumes "\<And>k. k < N \<Longrightarrow> k \<noteq> i \<Longrightarrow> L' k = L k" and "i < N" and "r < i \<or> i < l"
  shows "answer L' N l r = answer L N l r"
proof -
  have nf: "\<not> (l \<le> 0 \<and> N - 1 \<le> r)" using assms(2,3) by linarith
  have "L' ` ({0..N - 1} \<inter> {l..r}) = L ` ({0..N - 1} \<inter> {l..r})"
    using assms by (intro image_cong) auto
  then show ?thesis unfolding answer_def if_not_P [OF nf] by (rule arg_cong)
qed

text \<open>
  Where \<open>ar[i]\<close> is current and \<open>v \<le> INF\<close>, a point update that returns sets the
  element: the query over \<open>[i, i]\<close> returns \<open>v\<close>, and a query over a range
  without \<open>i\<close> returns what it returned before.
\<close>

lemma pointUpdate_where_current:
  assumes r: "reachable arr ops s" and c: "logical s i = ar s ! i" and v: "v \<le> INF_ll"
    and u: "pointUpdate s i v = Some s'"
  shows "\<exists>s''. rangeMin s' i i = Some (v, s'')"
    and "\<And>l r x y t t'. r < i \<or> i < l \<Longrightarrow> rangeMin s l r = Some (x, t) \<Longrightarrow>
      rangeMin s' l r = Some (y, t') \<Longrightarrow> y = x"
proof -
  note g = reachable_good(1) [OF r]
  note g' = pointUpdate_good [OF g u]
  then have gs: "good s'" and n: "n s' = n s" by simp_all
  have i: "i < n s" by (rule pointUpdate_pos [OF g u])
  have L: "logical s' k = logical s k + (if k = i then v - ar s ! i else 0)" if "k < n s" for k
    by (rule pointUpdate_logical(1) [OF g u that])
  have Li: "logical s' i = v" using L [OF i] c by simp
  from pointUpdate_unfold [OF u] obtain s1 where
    u1: "updateRange s i i (v - ar s ! i) = Some s1"
    and s': "s' = s1\<lparr>ar := (ar s1)[i := v]\<rparr>" by blast
  from g have w: "wfs s" by (simp add: good_def)
  from updateRange_sim [OF w, of i i "v - ar s ! i"] u1 obtain t1 where
    tu: "t_update (abs_tree s 1 0 (n s - 1)) 0 (n s - 1) i i (v - ar s ! i) = Some t1"
    and a1: "abs_tree s1 1 0 (n s - 1) = t1"
    by (auto simp: sim_def split: option.splits)
  from t_update_then_query [OF tu] obtain x where tq: "t_query t1 0 (n s - 1) i i = Some (x, t1)"
    by blast
  from gs have w': "wfs s'" by (simp add: good_def)
  have "abs_tree s' 1 0 (n s' - 1) = t1" using a1 n by (simp add: s')
  with rangeMin_sim [OF w', of i i] tq n obtain s'' where q: "rangeMin s' i i = Some (x, s'')"
    by (auto simp: sim_q_def)
  from rangeMin_logical(1) [OF gs q] have "x = answer (logical s') (n s') i i" .
  also have "\<dots> = logical s' i" using i n Li v by (intro answer_point) simp_all
  finally have "x = v" using Li by simp
  with q show "\<exists>s''. rangeMin s' i i = Some (v, s'')" by blast
  fix l r x y t t'
  assume away: "r < i \<or> i < l" and qa: "rangeMin s l r = Some (x, t)"
    and qb: "rangeMin s' l r = Some (y, t')"
  have "y = answer (logical s') (n s) l r" using rangeMin_logical(1) [OF gs qb] n by simp
  also have "\<dots> = answer (logical s) (n s) l r"
    using L by (intro answer_away [OF _ i away]) simp
  also have "\<dots> = x" using rangeMin_logical(1) [OF g qa] by simp
  finally show "y = x" .
qed

section \<open>Queries over an empty range\<close>





lemma root_upd_id [simp]: "root_upd t (tv t) (tz t) = t"
  by (cases t) simp_all








section \<open>Flushing before or after the overlap test\<close>

text \<open>
  The variant differs from the source at the nodes a range update visits outside its
  range: the source flushes them, the variant leaves them as they are.
  \<open>flushed_outside\<close> follows the calls of \<^verbatim>\<open>rangeUpdate\<close> over the state before the
  update: \<open>acc\<close> is the delta that the flushes of the ancestors have added to
  \<open>lazy[node]\<close>, and the predicate says that every node visited outside \<open>[l, r]\<close>
  holds no pending delta when it is visited. \<open>flushed_outside_run\<close> says so for every
  update of a sequence of operations, each in the state the source has reached.
\<close>

function flushed_outside ::
  "SegmentTree \<Rightarrow> int \<Rightarrow> nat \<Rightarrow> nat \<Rightarrow> nat \<Rightarrow> nat \<Rightarrow> nat \<Rightarrow> bool" where
  "flushed_outside s acc node start end l r =
     (if start > end \<or> start > r \<or> end < l then lazy s ! node + acc = 0
      else if start \<ge> l \<and> end \<le> r then True
      else
        flushed_outside s (lazy s ! node + acc) (2 * node) start ((start + end) div 2) l r \<and>
        flushed_outside s (lazy s ! node + acc) (2 * node + 1) ((start + end) div 2 + 1) end
          l r)"
  by pat_completeness auto
termination
  by (relation "measure (\<lambda>(s, acc, node, start, end, l, r). end - start)") auto

declare flushed_outside.simps [simp del]

fun flushed_outside_op :: "SegmentTree \<Rightarrow> operation \<Rightarrow> bool" where
  "flushed_outside_op s (UpdateRange l r val) = flushed_outside s 0 1 0 (n s - 1) l r"
| "flushed_outside_op s (PointUpdate pos val) = flushed_outside s 0 1 0 (n s - 1) pos pos"
| "flushed_outside_op s (RangeMin l r) = True"

fun flushed_outside_run :: "SegmentTree \<Rightarrow> operation list \<Rightarrow> bool" where
  "flushed_outside_run s [] = True"
| "flushed_outside_run s (x # xs) =
     (flushed_outside_op s x \<and>
      (case step s x of None \<Rightarrow> True | Some (a, s1) \<Rightarrow> flushed_outside_run s1 xs))"

subsection \<open>The variant on trees\<close>

function t_update_skip ::
  "ltree \<Rightarrow> nat \<Rightarrow> nat \<Rightarrow> nat \<Rightarrow> nat \<Rightarrow> int \<Rightarrow> ltree option" where
  "t_update_skip t st en l r val =
     (if st > en \<or> st > r \<or> en < l then Some t
      else do {
        t1 \<leftarrow> t_push t;
        if l \<le> st \<and> en \<le> r then do {
          z' \<leftarrow> add_ll (tz t1) val;
          t_push (root_upd t1 (tv t1) z')
        } else (case t1 of
            Leaf v z \<Rightarrow> None
          | Node v z a b \<Rightarrow> do {
              a' \<leftarrow> t_update_skip a st ((st + en) div 2) l r val;
              b' \<leftarrow> t_update_skip b ((st + en) div 2 + 1) en l r val;
              Some (Node (min (tv a') (tv b')) z a' b')
            })
      })"
  by pat_completeness auto
termination
  by (relation "measure (\<lambda>(t, st, en, l, r, val). size t)")
    (auto dest: t_push_child_size)

declare t_update_skip.simps [simp del]

fun t_flushed_outside :: "int \<Rightarrow> ltree \<Rightarrow> nat \<Rightarrow> nat \<Rightarrow> nat \<Rightarrow> nat \<Rightarrow> bool" where
  "t_flushed_outside acc (Leaf v z) st en l r \<longleftrightarrow>
     (if en < st \<or> r < st \<or> en < l then z + acc = 0 else True)"
| "t_flushed_outside acc (Node v z a b) st en l r \<longleftrightarrow>
     (if en < st \<or> r < st \<or> en < l then z + acc = 0
      else if l \<le> st \<and> en \<le> r then True
      else t_flushed_outside (z + acc) a st ((st + en) div 2) l r \<and>
           t_flushed_outside (z + acc) b ((st + en) div 2 + 1) en l r)"

lemma flushed_outside_abs:
  "st \<le> en \<Longrightarrow>
   flushed_outside s acc i st en l r = t_flushed_outside acc (abs_tree s i st en) st en l r"
proof (induction "en - st" arbitrary: acc i st en rule: less_induct)
  case less
  show ?case
  proof (cases "st < en")
    case True
    let ?m = "(st + en) div 2"
    have a: "abs_tree s i st en = Node (segment_tree s ! i) (lazy s ! i)
        (abs_tree s (2 * i) st ?m) (abs_tree s (2 * i + 1) (?m + 1) en)"
      using True by (subst abs_tree.simps) simp
    have l: "flushed_outside s z (2 * i) st ?m l r =
        t_flushed_outside z (abs_tree s (2 * i) st ?m) st ?m l r" for z
      using True by (intro less.hyps) linarith+
    have rr: "flushed_outside s z (2 * i + 1) (?m + 1) en l r =
        t_flushed_outside z (abs_tree s (2 * i + 1) (?m + 1) en) (?m + 1) en l r" for z
      using True by (intro less.hyps) linarith+
    show ?thesis
      unfolding a using l rr by (subst flushed_outside.simps) simp
  next
    case False
    with less.prems have e: "st = en" by simp
    have a: "abs_tree s i en en = Leaf (segment_tree s ! i) (lazy s ! i)"
      by (subst abs_tree.simps) simp
    show ?thesis
      unfolding e a by (subst flushed_outside.simps) auto
  qed
qed

lemma t_push_Node_eq:
  assumes "t_push (Node v z a b) = Some t1"
  shows "t1 = Node (v + z) 0 (root_upd a (tv a) (tz a + z)) (root_upd b (tv b) (tz b + z))"
  using assms by (cases "z = 0") (auto simp: add_ll_def split: if_splits)

lemma t_update_skip_out:
  "en < st \<or> r < st \<or> en < l \<Longrightarrow> t_update_skip t st en l r d = Some t"
  by (subst t_update_skip.simps) simp

lemma t_update_skip_full:
  assumes "\<not> (en < st \<or> r < st \<or> en < l)" "l \<le> st \<and> en \<le> r"
  shows "t_update_skip t st en l r d = t_update t st en l r d"
  by (subst t_update_skip.simps, subst t_update.simps) (simp add: assms)

lemma t_update_skip_part:
  assumes "\<not> (en < st \<or> r < st \<or> en < l)" "\<not> (l \<le> st \<and> en \<le> r)"
    and "t_push t = Some (Node v z a b)"
  shows "t_update_skip t st en l r d = do {
      a' \<leftarrow> t_update_skip a st ((st + en) div 2) l r d;
      b' \<leftarrow> t_update_skip b ((st + en) div 2 + 1) en l r d;
      Some (Node (min (tv a') (tv b')) z a' b') }"
  by (subst t_update_skip.simps) (simp add: assms)

lemma t_update_part:
  assumes "\<not> (en < st \<or> r < st \<or> en < l)" "\<not> (l \<le> st \<and> en \<le> r)"
    and "t_push t = Some (Node v z a b)"
  shows "t_update t st en l r d = do {
      a' \<leftarrow> t_update a st ((st + en) div 2) l r d;
      b' \<leftarrow> t_update b ((st + en) div 2 + 1) en l r d;
      Some (Node (min (tv a') (tv b')) z a' b') }"
  by (subst t_update.simps) (simp add: assms)

lemma t_update_skip_eq:
  "shaped t st en \<Longrightarrow> t_flushed_outside acc t st en l r \<Longrightarrow>
   t_update_skip (root_upd t (tv t) (tz t + acc)) st en l r d =
   t_update (root_upd t (tv t) (tz t + acc)) st en l r d"
proof (induction t arbitrary: acc st en)
  case (Leaf v z)
  then have e: "st = en" by simp
  show ?case
  proof (cases "r < en \<or> en < l")
    case True
    with Leaf.prems(2) e have z: "z + acc = 0" by auto
    from True have o: "en < en \<or> r < en \<or> en < l" by simp
    show ?thesis
      unfolding e using z by (simp add: t_update_skip_out [OF o] t_update_out [OF o])
  next
    case False
    then have "\<not> (en < en \<or> r < en \<or> en < l)" "l \<le> en \<and> en \<le> r" by auto
    from t_update_skip_full [OF this] show ?thesis unfolding e .
  qed
next
  case (Node v z a b)
  let ?m = "(st + en) div 2"
  from Node.prems have lt: "st < en" and sa: "shaped a st ?m" and sb: "shaped b (?m + 1) en"
    by simp_all
  let ?z = "z + acc"
  let ?t = "Node v ?z a b"
  let ?a1 = "root_upd a (tv a) (tz a + ?z)" and ?b1 = "root_upd b (tv b) (tz b + ?z)"
  have rt: "root_upd (Node v z a b) (tv (Node v z a b)) (tz (Node v z a b) + acc) = ?t"
    by simp
  show ?case
  proof (cases "en < st \<or> r < st \<or> en < l")
    case True
    with Node.prems(2) have z: "?z = 0" by simp
    then have "t_push ?t = Some ?t" by simp
    then show ?thesis
      unfolding rt by (simp only: t_update_skip_out [OF True] t_update_out [OF True])
  next
    case no: False
    show ?thesis
    proof (cases "l \<le> st \<and> en \<le> r")
      case True
      from t_update_skip_full [OF no True] show ?thesis unfolding rt .
    next
      case part: False
      from Node.prems(2) no part have fa: "t_flushed_outside ?z a st ?m l r"
        and fb: "t_flushed_outside ?z b (?m + 1) en l r" by simp_all
      show ?thesis
      proof (cases "t_push ?t")
        case None
        have "t_update_skip ?t st en l r d = None"
          by (subst t_update_skip.simps) (simp add: None no del: t_push.simps)
        moreover have "t_update ?t st en l r d = None" by (rule t_update_push_None [OF None])
        ultimately show ?thesis unfolding rt by simp
      next
        case (Some t1)
        from t_push_Node_eq [OF Some] have p: "t_push ?t = Some (Node (v + ?z) 0 ?a1 ?b1)"
          using Some by simp
        show ?thesis
          unfolding rt t_update_skip_part [OF no part p] t_update_part [OF no part p]
            Node.IH(1) [OF sa fa] Node.IH(2) [OF sb fb] ..
      qed
    qed
  qed
qed

lemma t_update_skip_neq:
  "shaped t st en \<Longrightarrow> \<not> t_flushed_outside acc t st en l r \<Longrightarrow>
   t_update (root_upd t (tv t) (tz t + acc)) st en l r d = Some u \<Longrightarrow>
   t_update_skip (root_upd t (tv t) (tz t + acc)) st en l r d \<noteq> Some u"
proof (induction t arbitrary: acc st en u)
  case (Leaf v z)
  then have e: "st = en" by simp
  from Leaf.prems(2) have o: "en < st \<or> r < st \<or> en < l" and z: "z + acc \<noteq> 0"
    by (auto split: if_splits)
  from Leaf.prems(3) have "t_push (Leaf v (z + acc)) = Some u"
    by (simp add: t_update_out [OF o])
  from t_push_props(1) [OF this] z have "u \<noteq> Leaf v (z + acc)" by auto
  then show ?case by (simp add: t_update_skip_out [OF o])
next
  case (Node v z a b)
  let ?m = "(st + en) div 2"
  from Node.prems have lt: "st < en" and sa: "shaped a st ?m" and sb: "shaped b (?m + 1) en"
    by simp_all
  let ?z = "z + acc"
  let ?t = "Node v ?z a b"
  let ?a1 = "root_upd a (tv a) (tz a + ?z)" and ?b1 = "root_upd b (tv b) (tz b + ?z)"
  have rt: "root_upd (Node v z a b) (tv (Node v z a b)) (tz (Node v z a b) + acc) = ?t"
    by simp
  from Node.prems(3) have tu: "t_update ?t st en l r d = Some u" unfolding rt .
  show ?case
  proof (cases "en < st \<or> r < st \<or> en < l")
    case True
    with Node.prems(2) have z: "?z \<noteq> 0" by simp
    from tu have "t_push ?t = Some u" by (simp only: t_update_out [OF True])
    from t_push_props(1) [OF this] z have "u \<noteq> ?t" by auto
    then show ?thesis unfolding rt by (simp add: t_update_skip_out [OF True])
  next
    case no: False
    with Node.prems(2) have part: "\<not> (l \<le> st \<and> en \<le> r)"
      and nf: "\<not> (t_flushed_outside ?z a st ?m l r \<and> t_flushed_outside ?z b (?m + 1) en l r)"
      by (auto split: if_splits)
    from tu obtain t1 where p0: "t_push ?t = Some t1"
      by (cases "t_push ?t") (simp_all add: t_update_push_None)
    from t_push_Node_eq [OF p0] p0 have p: "t_push ?t = Some (Node (v + ?z) 0 ?a1 ?b1)"
      by simp
    from tu [unfolded t_update_part [OF no part p]] obtain a' b' where
      ua: "t_update ?a1 st ?m l r d = Some a'" and ub: "t_update ?b1 (?m + 1) en l r d = Some b'"
      and u: "u = Node (min (tv a') (tv b')) 0 a' b'"
      by (auto simp: bind_eq_Some_conv)
    show ?thesis
    proof
      assume "t_update_skip (root_upd (Node v z a b) (tv (Node v z a b))
          (tz (Node v z a b) + acc)) st en l r d = Some u"
      then have "t_update_skip ?t st en l r d = Some u" unfolding rt .
      from this [unfolded t_update_skip_part [OF no part p]] u have
        sa': "t_update_skip ?a1 st ?m l r d = Some a'"
        and sb': "t_update_skip ?b1 (?m + 1) en l r d = Some b'"
        by (auto simp: bind_eq_Some_conv)
      from nf show False
      proof (rule de_Morgan_conj [THEN iffD1, THEN disjE])
        assume "\<not> t_flushed_outside ?z a st ?m l r"
        from Node.IH(1) [OF sa this ua] sa' show False by simp
      next
        assume "\<not> t_flushed_outside ?z b (?m + 1) en l r"
        from Node.IH(2) [OF sb this ub] sb' show False by simp
      qed
    qed
  qed
qed

subsection \<open>The variant on the arrays\<close>

lemma rangeUpdate_skip_sim:
  "wfs s \<Longrightarrow> vnode (n s) i st en \<Longrightarrow>
   sim s i st en (t_update_skip (abs_tree s i st en) st en l r val)
     (rangeUpdate_skip s i st en l r val)"
proof (induction "en - st" arbitrary: s i st en rule: less_induct)
  case less
  note w = \<open>wfs s\<close> and v = \<open>vnode (n s) i st en\<close>
  let ?t = "abs_tree s i st en"
  have se: "st \<le> en" using v by (simp add: vnode_def)
  show ?case
  proof (cases "en < st \<or> r < st \<or> en < l")
    case True
    have "rangeUpdate_skip s i st en l r val = Some s"
      by (subst rangeUpdate_skip.simps) (simp add: True)
    then show ?thesis by (simp add: t_update_skip_out [OF True] sim_def frame_refl)
  next
    case no: False
    show ?thesis
    proof (cases "t_push ?t")
      case None
      with push_sim [OF w v] have "push s i st en = None" by (simp add: sim_def)
      then have "rangeUpdate_skip s i st en l r val = None"
        by (subst rangeUpdate_skip.simps) (simp add: no)
      moreover have "t_update_skip ?t st en l r val = None"
        by (subst t_update_skip.simps) (simp add: None no)
      ultimately show ?thesis by (simp add: sim_def)
    next
      case (Some t1)
      with push_sim [OF w v] obtain s1 where p: "push s i st en = Some s1"
        and a1: "abs_tree s1 i st en = t1" and f1: "frame (nodes i st en) s s1"
        by (auto simp: sim_def)
      have w1: "wfs s1" by (rule frame_wfs [OF f1 w])
      have v1: "vnode (n s1) i st en" by (rule frame_vnode [OF f1 v])
      note b1 = wfs_bounds [OF w1 v1]
      show ?thesis
      proof (cases "l \<le> st \<and> en \<le> r")
        case True
        have ru: "rangeUpdate_skip s i st en l r val = do {
            z' \<leftarrow> add_ll (lazy s1 ! i) val;
            push (s1\<lparr>lazy := (lazy s1)[i := z']\<rparr>) i st en }"
          using b1 by (subst rangeUpdate_skip.simps) (simp add: p True no rd_def wr_def)
        have tu: "t_update_skip ?t st en l r val = do {
            z' \<leftarrow> add_ll (tz t1) val;
            t_push (root_upd t1 (tv t1) z') }"
          by (subst t_update_skip.simps) (simp add: Some True no)
        have tz1: "tz t1 = lazy s1 ! i" "tv t1 = segment_tree s1 ! i"
          using a1 [symmetric] by simp_all
        show ?thesis
        proof (cases "add_ll (lazy s1 ! i) val")
          case None
          then show ?thesis by (simp add: ru tu tz1 sim_def)
        next
          case z': (Some z')
          define s2 where "s2 = s1\<lparr>lazy := (lazy s1)[i := z']\<rparr>"
          have a2: "abs_tree s2 i st en = root_upd t1 (tv t1) z'"
            using write_lazy_root(1) [OF b1(3) b1(2) s2_def] a1 tz1 by simp
          have f2: "frame (nodes i st en) s1 s2"
            by (rule write_lazy_root(2) [OF b1(3) b1(2) s2_def])
          have w2: "wfs s2" by (rule frame_wfs [OF f2 w1])
          have v2: "vnode (n s2) i st en" by (rule frame_vnode [OF f2 v1])
          have "sim s2 i st en (t_push (root_upd t1 (tv t1) z')) (push s2 i st en)"
            using push_sim [OF w2 v2] by (simp add: a2)
          then have "sim s i st en (t_push (root_upd t1 (tv t1) z')) (push s2 i st en)"
            using frame_trans [OF frame_trans [OF f1 f2]]
            by (auto simp: sim_def split: option.splits)
          then show ?thesis by (simp add: ru tu tz1 z' s2_def)
        qed
      next
        case part: False
        with no se have lt: "st < en" by linarith
        let ?m = "(st + en) div 2"
        note vl = vnode_left [OF v1 lt] and vr = vnode_right [OF v1 lt]
        have t1: "t1 = Node (segment_tree s1 ! i) (lazy s1 ! i)
            (abs_tree s1 (2 * i) st ?m) (abs_tree s1 (2 * i + 1) (?m + 1) en)"
          using a1 [symmetric] lt by (subst (asm) abs_tree.simps) simp
        have ru: "rangeUpdate_skip s i st en l r val = do {
            s2 \<leftarrow> rangeUpdate_skip s1 (2 * i) st ?m l r val;
            s3 \<leftarrow> rangeUpdate_skip s2 (2 * i + 1) (?m + 1) en l r val;
            a \<leftarrow> rd (segment_tree s3) (2 * i);
            b \<leftarrow> rd (segment_tree s3) (2 * i + 1);
            t \<leftarrow> wr (segment_tree s3) i (min a b);
            Some (s3\<lparr>segment_tree := t\<rparr>) }"
          by (subst rangeUpdate_skip.simps) (simp add: Let_def p part no)
        have tu: "t_update_skip ?t st en l r val = do {
            a' \<leftarrow> t_update_skip (abs_tree s1 (2 * i) st ?m) st ?m l r val;
            b' \<leftarrow> t_update_skip (abs_tree s1 (2 * i + 1) (?m + 1) en) (?m + 1) en l r val;
            Some (Node (min (tv a') (tv b')) (lazy s1 ! i) a' b') }"
          using Some unfolding t1 by (rule t_update_skip_part [OF no part])
        have IH1: "sim s1 (2 * i) st ?m
            (t_update_skip (abs_tree s1 (2 * i) st ?m) st ?m l r val)
            (rangeUpdate_skip s1 (2 * i) st ?m l r val)"
          using lt by (intro less.hyps w1 vl) linarith
        show ?thesis
        proof (cases "t_update_skip (abs_tree s1 (2 * i) st ?m) st ?m l r val")
          case None
          with IH1 show ?thesis by (simp add: ru tu sim_def)
        next
          case a': (Some a')
          with IH1 obtain s2 where r2: "rangeUpdate_skip s1 (2 * i) st ?m l r val = Some s2"
            and a2: "abs_tree s2 (2 * i) st ?m = a'"
            and f2: "frame (nodes (2 * i) st ?m) s1 s2"
            by (auto simp: sim_def)
          have w2: "wfs s2" by (rule frame_wfs [OF f2 w1])
          have "sim s2 (2 * i + 1) (?m + 1) en
              (t_update_skip (abs_tree s2 (2 * i + 1) (?m + 1) en) (?m + 1) en l r val)
              (rangeUpdate_skip s2 (2 * i + 1) (?m + 1) en l r val)"
            using lt by (intro less.hyps w2 frame_vnode [OF f2 vr]) linarith
          then have IH2: "sim s2 (2 * i + 1) (?m + 1) en
              (t_update_skip (abs_tree s1 (2 * i + 1) (?m + 1) en) (?m + 1) en l r val)
              (rangeUpdate_skip s2 (2 * i + 1) (?m + 1) en l r val)"
            using abs_tree_frame [OF f2, of "2 * i + 1" "?m + 1" en] nodes_disjoint [OF b1(3)]
            by (metis disjoint_iff)
          show ?thesis
          proof (cases "t_update_skip (abs_tree s1 (2 * i + 1) (?m + 1) en) (?m + 1) en l r val")
            case None
            with IH2 show ?thesis by (simp add: ru tu a' r2 sim_def)
          next
            case b': (Some b')
            with IH2 obtain s3 where
              r3: "rangeUpdate_skip s2 (2 * i + 1) (?m + 1) en l r val = Some s3"
              and a3: "abs_tree s3 (2 * i + 1) (?m + 1) en = b'"
              and f3: "frame (nodes (2 * i + 1) (?m + 1) en) s2 s3"
              by (auto simp: sim_def)
            note cs = children_seq [OF b1(3) lt f2 f3]
            have w3: "wfs s3" by (rule frame_wfs [OF f3 w2])
            have v3: "vnode (n s3) i st en"
              by (rule frame_vnode [OF f3 frame_vnode [OF f2 v1]])
            note b3 = wfs_bounds [OF w3 v3] and c3 = wfs_child_bounds [OF w3 v3 lt]
            define s4 where "s4 = s3\<lparr>segment_tree :=
              (segment_tree s3)[i := min (segment_tree s3 ! (2 * i)) (segment_tree s3 ! (2 * i + 1))]\<rparr>"
            have r4: "rangeUpdate_skip s i st en l r val = Some s4"
              using b3 c3 r2 r3 by (simp add: ru rd_def wr_def s4_def)
            have tva: "tv a' = segment_tree s3 ! (2 * i)"
              using cs(2) a2 tv_abs [of s3 "2 * i" st ?m] by simp
            have tvb: "tv b' = segment_tree s3 ! (2 * i + 1)"
              using a3 tv_abs [of s3 "2 * i + 1" "?m + 1" en] by simp
            have a4: "abs_tree s4 i st en = Node (min (tv a') (tv b')) (lazy s1 ! i) a' b'"
              using write_root(1) [OF b1(3) lt b3(1) s4_def] cs(2,3) a2 a3 tva tvb by simp
            have f4: "frame (nodes i st en) s s4"
              by (rule frame_trans [OF f1 frame_trans [OF cs(5)
                    write_root(2) [OF b1(3) lt b3(1) s4_def]]])
            show ?thesis using r4 a4 f4 a' b' by (simp add: tu sim_def)
          qed
        qed
      qed
    qed
  qed
qed

lemma updateRange_skip_sim:
  assumes "wfs s"
  shows "sim s 1 0 (n s - 1) (t_update_skip (abs_tree s 1 0 (n s - 1)) 0 (n s - 1) l r d)
    (updateRange_skip s l r d)"
proof -
  have "0 < n s" using assms by (simp add: wfs_def)
  then have "updateRange_skip s l r d = rangeUpdate_skip s 1 0 (n s - 1) l r d"
    by (simp add: updateRange_skip_def)
  with rangeUpdate_skip_sim [OF assms vnode_root [OF \<open>0 < n s\<close>]] show ?thesis by simp
qed

lemma sim_abs:
  assumes "sim s i st en ot (Some s1)"
  shows "ot = Some (abs_tree s1 i st en)"
  using assms by (cases ot) (auto simp: sim_def)

lemma updateRange_skip_eq:
  assumes w: "wfs s" and f: "flushed_outside s 0 1 0 (n s - 1) l r"
  shows "updateRange_skip s l r d = updateRange s l r d"
proof -
  let ?t = "abs_tree s 1 0 (n s - 1)"
  have sh: "shaped ?t 0 (n s - 1)" by (rule shaped_abs) simp
  have id: "root_upd ?t (tv ?t) (tz ?t + 0) = ?t" by (simp only: add_0_right root_upd_id)
  from f have "t_flushed_outside 0 ?t 0 (n s - 1) l r"
    by (simp add: flushed_outside_abs)
  from t_update_skip_eq [OF sh this, of d, unfolded id]
  have "sim s 1 0 (n s - 1) (t_update ?t 0 (n s - 1) l r d) (updateRange_skip s l r d)"
    using updateRange_skip_sim [OF w, of l r d] by simp
  from sim_unique [OF this updateRange_sim [OF w]] show ?thesis .
qed

lemma updateRange_skip_neq:
  assumes w: "wfs s" and f: "\<not> flushed_outside s 0 1 0 (n s - 1) l r"
    and u: "updateRange s l r d = Some s1"
  shows "updateRange_skip s l r d \<noteq> Some s1"
proof
  assume k: "updateRange_skip s l r d = Some s1"
  let ?t = "abs_tree s 1 0 (n s - 1)"
  have sh: "shaped ?t 0 (n s - 1)" by (rule shaped_abs) simp
  have id: "root_upd ?t (tv ?t) (tz ?t + 0) = ?t" by (simp only: add_0_right root_upd_id)
  from f have nf: "\<not> t_flushed_outside 0 ?t 0 (n s - 1) l r"
    by (simp add: flushed_outside_abs)
  from sim_abs [OF updateRange_sim [OF w, of l r d, unfolded u]]
  have a: "t_update ?t 0 (n s - 1) l r d = Some (abs_tree s1 1 0 (n s - 1))" .
  from sim_abs [OF updateRange_skip_sim [OF w, of l r d, unfolded k]]
  have b: "t_update_skip ?t 0 (n s - 1) l r d = Some (abs_tree s1 1 0 (n s - 1))" .
  from t_update_skip_neq [OF sh nf, of d, unfolded id, OF a] b show False by simp
qed

lemma pointUpdate_skip_eq:
  assumes w: "wfs s" and f: "flushed_outside s 0 1 0 (n s - 1) pos pos"
  shows "pointUpdate_skip s pos val = pointUpdate s pos val"
proof -
  have n: "0 < n s" using w by (simp add: wfs_def)
  have "rangeUpdate_skip s 1 0 (n s - 1) pos pos d = rangeUpdate s 1 0 (n s - 1) pos pos d"
    for d
    using updateRange_skip_eq [OF w f, of d] n by (simp add: updateRange_skip_def updateRange_def)
  then show ?thesis by (simp add: pointUpdate_skip_def pointUpdate_def)
qed

lemma step_skip_eq:
  "wfs s \<Longrightarrow> flushed_outside_op s x \<Longrightarrow> step_skip s x = step s x"
  by (cases x) (simp_all add: updateRange_skip_eq pointUpdate_skip_eq)

lemma step_good: "good s \<Longrightarrow> step s x = Some (a, s1) \<Longrightarrow> good s1"
proof (cases x)
  case (UpdateRange l r d)
  assume "good s" "step s x = Some (a, s1)"
  with UpdateRange updateRange_good [of s l r d s1] show ?thesis by auto
next
  case (PointUpdate pos val)
  assume "good s" "step s x = Some (a, s1)"
  with PointUpdate pointUpdate_good [of s pos val s1] show ?thesis by auto
next
  case (RangeMin l r)
  assume "good s" "step s x = Some (a, s1)"
  with RangeMin rangeMin_good [of s l r _ s1] show ?thesis by auto
qed

lemma run_answers_skip_eq:
  "good s \<Longrightarrow> flushed_outside_run s ops \<Longrightarrow> run_answers_skip s ops = run_answers s ops"
proof (induction ops arbitrary: s)
  case Nil
  show ?case by simp
next
  case (Cons x xs)
  from Cons.prems(1) have w: "wfs s" by (simp add: good_def)
  from Cons.prems(2) have fx: "flushed_outside_op s x" by simp
  note e = step_skip_eq [OF w fx]
  show ?case
  proof (cases "step s x")
    case None
    then show ?thesis by (simp add: e)
  next
    case (Some p)
    obtain a s1 where p: "p = (a, s1)" by (cases p)
    from Cons.prems(2) Some p have "flushed_outside_run s1 xs" by simp
    from Cons.IH [OF step_good [OF Cons.prems(1) Some [unfolded p]] this]
    show ?thesis by (simp add: e Some p)
  qed
qed

text \<open>
  Claim C8 (flushing only after the overlap test), as stated, fails: the recomputation
  \<open>tree[node] = min(tree[2 node], tree[2 node + 1])\<close> after the two recursive calls
  reads the stored value of a child that has no overlap with the update, and that value
  is current only because the call on the child has flushed it. On the array
  \<open>[5, 1]\<close>, after \<open>updateRange(0, 1, 10)\<close>, the variant's \<open>updateRange(0, 0, 1)\<close>
  makes the query over \<open>[0, 1]\<close> answer 1, where the source answers 11.
\<close>

theorem skip_variant_counterexample:
  "reachable [5, 1] [UpdateRange 0 1 10]
     (the (SegmentTree_init [5, 1] \<bind> (\<lambda>s. updateRange s 0 1 10))) \<and>
   map_option fst (updateRange_skip
       (the (SegmentTree_init [5, 1] \<bind> (\<lambda>s. updateRange s 0 1 10))) 0 0 1 \<bind>
     (\<lambda>s. rangeMin s 0 1)) = Some 1 \<and>
   map_option fst (updateRange
       (the (SegmentTree_init [5, 1] \<bind> (\<lambda>s. updateRange s 0 1 10))) 0 0 1 \<bind>
     (\<lambda>s. rangeMin s 0 1)) = Some 11"
  by code_simp

text \<open>
  Claim C8, amended. In every reachable state the variant agrees with the source on a
  range update exactly when no node that the update visits outside its range holds a
  pending delta at that moment (\<open>flushed_outside\<close>): then both return the same
  state (or fail together), and otherwise, whenever the source returns, the variant does
  not return that state. Hence, for every subsequent sequence of operations whose updates
  all meet this condition where they are applied, the class with the variant returns
  the same answers to all queries, and the same final state, as the source.
\<close>

theorem skip_variant_flushed_outside:
  assumes "reachable arr ops s"
  shows "(flushed_outside_run s ops' \<longrightarrow> run_answers_skip s ops' = run_answers s ops') \<and>
    (flushed_outside s 0 1 0 (n s - 1) l r \<longrightarrow>
       updateRange_skip s l r val = updateRange s l r val) \<and>
    (\<forall>s1. \<not> flushed_outside s 0 1 0 (n s - 1) l r \<longrightarrow> updateRange s l r val = Some s1 \<longrightarrow>
       updateRange_skip s l r val \<noteq> Some s1)"
proof (intro conjI allI impI)
  assume "flushed_outside_run s ops'"
  from run_answers_skip_eq [OF reachable_good(1) [OF assms] this]
  show "run_answers_skip s ops' = run_answers s ops'" .
next
  assume "flushed_outside s 0 1 0 (n s - 1) l r"
  from updateRange_skip_eq [OF reachable_wfs [OF assms] this]
  show "updateRange_skip s l r val = updateRange s l r val" .
next
  fix s1
  assume "\<not> flushed_outside s 0 1 0 (n s - 1) l r" "updateRange s l r val = Some s1"
  from updateRange_skip_neq [OF reachable_wfs [OF assms] this]
  show "updateRange_skip s l r val \<noteq> Some s1" .
qed

theorem skip_variant_flushed_outside_witness:
  "reachable [5, 1, 7, 9] [UpdateRange 0 1 10]
     (the (SegmentTree_init [5, 1, 7, 9] \<bind> (\<lambda>s. updateRange s 0 1 10))) \<and>
   lazy (the (SegmentTree_init [5, 1, 7, 9] \<bind> (\<lambda>s. updateRange s 0 1 10))) ! 4 = 10 \<and>
   flushed_outside_run (the (SegmentTree_init [5, 1, 7, 9] \<bind> (\<lambda>s. updateRange s 0 1 10)))
     [UpdateRange 2 3 1, UpdateRange 0 1 1, RangeMin 3 3, PointUpdate 2 0, RangeMin 0 3] \<and>
   run_answers_skip (the (SegmentTree_init [5, 1, 7, 9] \<bind> (\<lambda>s. updateRange s 0 1 10)))
     [UpdateRange 2 3 1, UpdateRange 0 1 1, RangeMin 3 3, PointUpdate 2 0, RangeMin 0 3] =
   run_answers (the (SegmentTree_init [5, 1, 7, 9] \<bind> (\<lambda>s. updateRange s 0 1 10)))
     [UpdateRange 2 3 1, UpdateRange 0 1 1, RangeMin 3 3, PointUpdate 2 0, RangeMin 0 3] \<and>
   map_option fst (run_answers (the (SegmentTree_init [5, 1, 7, 9] \<bind> (\<lambda>s. updateRange s 0 1 10)))
     [UpdateRange 2 3 1, UpdateRange 0 1 1, RangeMin 3 3, PointUpdate 2 0, RangeMin 0 3]) = Some [10, 1] \<and>
   flushed_outside (the (SegmentTree_init [5, 1, 7, 9] \<bind> (\<lambda>s. updateRange s 0 1 10))) 0 1 0
     (n (the (SegmentTree_init [5, 1, 7, 9] \<bind> (\<lambda>s. updateRange s 0 1 10))) - 1) 2 3 \<and>
   updateRange_skip (the (SegmentTree_init [5, 1, 7, 9] \<bind> (\<lambda>s. updateRange s 0 1 10))) 2 3 1 =
   updateRange (the (SegmentTree_init [5, 1, 7, 9] \<bind> (\<lambda>s. updateRange s 0 1 10))) 2 3 1 \<and>
   reachable [5, 1] [UpdateRange 0 1 10]
     (the (SegmentTree_init [5, 1] \<bind> (\<lambda>s. updateRange s 0 1 10))) \<and>
   \<not> flushed_outside (the (SegmentTree_init [5, 1] \<bind> (\<lambda>s. updateRange s 0 1 10))) 0 1 0
     (n (the (SegmentTree_init [5, 1] \<bind> (\<lambda>s. updateRange s 0 1 10))) - 1) 0 0 \<and>
   (\<exists>s1. updateRange (the (SegmentTree_init [5, 1] \<bind> (\<lambda>s. updateRange s 0 1 10))) 0 0 1 = Some s1 \<and>
      updateRange_skip (the (SegmentTree_init [5, 1] \<bind> (\<lambda>s. updateRange s 0 1 10))) 0 0 1 \<noteq> Some s1)"
proof -
  let ?S = "(the (SegmentTree_init [5, 1, 7, 9] \<bind> (\<lambda>s. updateRange s 0 1 10)))"
  let ?O = "[UpdateRange 2 3 1, UpdateRange 0 1 1, RangeMin 3 3, PointUpdate 2 0, RangeMin 0 3]"
  let ?S2 = "(the (SegmentTree_init [5, 1] \<bind> (\<lambda>s. updateRange s 0 1 10)))"
  have r: "reachable [5, 1, 7, 9] [UpdateRange 0 1 10] ?S" by code_simp
  have p: "lazy ?S ! 4 = 10" by code_simp
  have f: "flushed_outside_run ?S ?O" by code_simp
  have v: "map_option fst (run_answers ?S ?O) = Some [10, 1]" by code_simp
  have g: "flushed_outside ?S 0 1 0 (n ?S - 1) 2 3" by code_simp
  note T = skip_variant_flushed_outside [OF r, of ?O 2 3 1]
  from T f have 1: "run_answers_skip ?S ?O = run_answers ?S ?O" by blast
  from T g have 2: "updateRange_skip ?S 2 3 1 = updateRange ?S 2 3 1" by blast
  have r2: "reachable [5, 1] [UpdateRange 0 1 10] ?S2" by code_simp
  have nf: "\<not> flushed_outside ?S2 0 1 0 (n ?S2 - 1) 0 0" by code_simp
  have "updateRange ?S2 0 0 1 \<noteq> None" by code_simp
  then obtain s1 where u: "updateRange ?S2 0 0 1 = Some s1" by auto
  from skip_variant_flushed_outside [OF r2, of _ 0 0 1] nf u
  have "updateRange_skip ?S2 0 0 1 \<noteq> Some s1" by blast
  with u have 3: "\<exists>s1. updateRange ?S2 0 0 1 = Some s1 \<and>
      updateRange_skip ?S2 0 0 1 \<noteq> Some s1" by blast
  from r p f 1 v g 2 r2 nf 3 show ?thesis by blast
qed

end
